theory Spec2Isabelle
  imports Complex_Main "HOL-Library.Word"
begin

section \<open>Public-key authenticated encryption over a sponge (encryption.ts)\<close>

text \<open>
  The development embeds the four operations of
  \<^verbatim>\<open>src/lib/provable/crypto/encryption.ts\<close>:
  \<^verbatim>\<open>encrypt\<close>, \<^verbatim>\<open>decrypt\<close>, \<^verbatim>\<open>encryptV2\<close> and \<^verbatim>\<open>decryptV2\<close>.

  The file imports its primitives from other modules (\<^verbatim>\<open>Field\<close>, \<^verbatim>\<open>Group\<close>,
  \<^verbatim>\<open>Scalar\<close>, \<^verbatim>\<open>Poseidon.Sponge\<close>, \<^verbatim>\<open>bytesToWord\<close>, \<^verbatim>\<open>wordToBytes\<close>).
  They are taken as parameters, collected in the record \<open>prims\<close>; every function of
  the protocol takes that record as its first argument. The mutable sponge object is a
  value of type \<open>'s\<close> threaded through the code: \<open>absorb\<close> returns the new sponge,
  \<open>squeeze\<close> returns the squeezed field element and the new sponge.

  A \<^verbatim>\<open>PublicKey\<close> is represented by the group element \<^verbatim>\<open>toGroup()\<close> gives, a
  \<^verbatim>\<open>PrivateKey\<close> by its scalar \<^verbatim>\<open>s\<close>. The random scalar that
  \<^verbatim>\<open>Provable.witness(Scalar, () => Scalar.random())\<close> samples is an explicit argument
  (\<open>privateKey\<close>) of the two encrypting functions.
\<close>

subsection \<open>Data\<close>

type_synonym UInt8 = "8 word"

record ('f, 'g, 'k, 's) prims =
  fadd :: "'f \<Rightarrow> 'f \<Rightarrow> 'f"
  fsub :: "'f \<Rightarrow> 'f \<Rightarrow> 'f"
  fieldConst :: "nat \<Rightarrow> 'f"
  generator :: "'g"
  scale :: "'g \<Rightarrow> 'k \<Rightarrow> 'g"
  xcoord :: "'g \<Rightarrow> 'f"
  newSponge :: "'s"
  absorb :: "'s \<Rightarrow> 'f \<Rightarrow> 's"
  squeeze :: "'s \<Rightarrow> 'f \<times> 's"
  bytesToWord :: "UInt8 list \<Rightarrow> 'f"
  wordToBytes :: "'f \<Rightarrow> nat \<Rightarrow> UInt8 list"

text \<open>
  \<^item> \<open>fadd\<close>, \<open>fsub\<close>: \<^verbatim>\<open>Field.add\<close> and \<^verbatim>\<open>Field.sub\<close>; \<open>fieldConst n\<close>: the field
    element \<^verbatim>\<open>Field(n)\<close>;
  \<^item> \<open>generator\<close>, \<open>scale\<close>, \<open>xcoord\<close>: \<^verbatim>\<open>Group.generator\<close>, \<^verbatim>\<open>Group.scale\<close> and the
    coordinate \<^verbatim>\<open>x\<close> of a group element;
  \<^item> \<open>newSponge\<close>, \<open>absorb\<close>, \<open>squeeze\<close>: \<^verbatim>\<open>new Poseidon.Sponge()\<close> and its two methods;
  \<^item> \<open>bytesToWord\<close>, \<open>wordToBytes\<close>: the two functions of \<^verbatim>\<open>gadgets/bit-slices\<close>;
    \<open>wordToBytes w n\<close> is \<^verbatim>\<open>wordToBytes(w, n)\<close>, which returns \<open>n\<close> bytes.
\<close>

text \<open>\<^verbatim>\<open>type CipherText = { publicKey: Group; cipherText: Field[] }\<close>, and its
  extension \<^verbatim>\<open>CipherText & { messageLength: number }\<close>. The message length is a
  JavaScript number (\<open>jsnum\<close>, below): \<^verbatim>\<open>decryptV2\<close> takes whatever number the caller
  supplies.\<close>

text \<open>A JavaScript number is an IEEE 754 double: a finite value (a rational number),
  \<^verbatim>\<open>NaN\<close>, \<^verbatim>\<open>Infinity\<close> or \<^verbatim>\<open>-Infinity\<close>. The two zeros are not told apart: the
  code never divides by the length nor inspects its sign.\<close>

datatype jsnum = Num rat | NaN | PosInf | NegInf

record ('f, 'g) CipherText =
  publicKey :: "'g"
  cipherText :: "'f list"

record ('f, 'g) CipherTextV2 = "('f, 'g) CipherText" +
  messageLength :: jsnum

text \<open>The \<^verbatim>\<open>Bytes\<close> object: a mutable field \<^verbatim>\<open>bytes\<close> holding the array.\<close>

record Bytes =
  bytes :: "UInt8 list"

text \<open>What a failed call throws. \<open>AssertEqualsFailed\<close> is the exception of
  \<^verbatim>\<open>Field.assertEquals\<close> on two different field elements, \<open>UndefinedOperand\<close> the
  one it raises when its argument is \<^verbatim>\<open>undefined\<close> (the tag popped from an empty
  array).\<close>

datatype error = AssertEqualsFailed | UndefinedOperand

subsection \<open>JavaScript array operations\<close>

text \<open>\<^verbatim>\<open>Array.prototype.pop\<close>: removes the last element in place and returns it;
  on an empty array it returns \<^verbatim>\<open>undefined\<close> and leaves the array empty. The
  model returns the popped value and the array after the call.\<close>

definition pop :: "'a list \<Rightarrow> 'a option \<times> 'a list" where
  "pop xs = (if xs = [] then (None, []) else (Some (last xs), butlast xs))"

text \<open>\<^verbatim>\<open>Array.prototype.slice(0, end)\<close> for an integer \<^verbatim>\<open>end\<close>: a negative
  \<^verbatim>\<open>end\<close> counts from the end of the array, and the bounds are clamped to the
  array.\<close>

definition slice0 :: "'a list \<Rightarrow> int \<Rightarrow> 'a list" where
  "slice0 xs e =
     (let len = int (length xs);
          final = (if e < 0 then max (len + e) 0 else min e len)
      in take (nat final) xs)"

text \<open>\<^verbatim>\<open>Math.ceil(a / b)\<close> for an array length \<open>a\<close> and \<open>b = 31\<close>. An array length is an
  integer below \<open>2^32\<close>; on such integers the double arithmetic of
  \<^verbatim>\<open>Math.ceil(a / 31) * 31\<close> and of \<^verbatim>\<open>n - a\<close> is exact, and \<^verbatim>\<open>encryptV2\<close>, which
  computes them on \<^verbatim>\<open>bytes.length\<close>, is modelled with natural numbers.\<close>

definition ceilDiv :: "nat \<Rightarrow> nat \<Rightarrow> nat" where
  "ceilDiv a b = (if a mod b = 0 then a div b else a div b + 1)"

subsection \<open>JavaScript number arithmetic\<close>

text \<open>\<^verbatim>\<open>decryptV2\<close> computes on the \<^verbatim>\<open>messageLength\<close> it is given, any number. Each
  operation yields the exact result rounded to the nearest double, ties to the even
  mantissa (\<open>roundDouble\<close>): 53 bits of mantissa, exponents from \<open>-1022\<close> (below it the
  spacing stays \<open>2^-1074\<close>) to \<open>1023\<close>, and infinity from \<open>2^1024\<close> on.\<close>

text \<open>\<open>bitlen n\<close> is the number of binary digits of a positive integer \<open>n\<close>.\<close>

function bitlen :: "int \<Rightarrow> int" where
  "bitlen n = (if n \<le> 0 then 0 else 1 + bitlen (n div 2))"
  by pat_completeness auto
termination
  by (relation "measure nat") auto

declare bitlen.simps [simp del]

text \<open>\<open>ilog2 a\<close> is the integer \<open>e\<close> with \<open>2^e \<le> a < 2^(e+1)\<close>, for a positive \<open>a\<close>.\<close>

definition ilog2 :: "rat \<Rightarrow> int" where
  "ilog2 a = (if 1 \<le> a then bitlen \<lfloor>a\<rfloor> - 1 else - bitlen (\<lceil>1 / a\<rceil> - 1))"

definition pow2 :: "int \<Rightarrow> rat" where
  "pow2 e = (if 0 \<le> e then 2 ^ nat e else 1 / 2 ^ nat (- e))"

definition roundHalfEven :: "rat \<Rightarrow> int" where
  "roundHalfEven q =
     (let f = \<lfloor>q\<rfloor>; d = q - of_int f
      in if d < 1 / 2 then f else if 1 / 2 < d then f + 1
         else if f mod 2 = 0 then f else f + 1)"

text \<open>With \<open>e\<close> the exponent of \<open>\<bar>x\<bar>\<close> and \<open>u = 2^(e - 52)\<close> the spacing of the doubles
  there, the mantissa \<open>m\<close> is \<open>\<bar>x\<bar> / u\<close> rounded to an integer, at most \<open>2^53\<close>, and the
  rounded value is \<open>m * u\<close>. It reaches \<open>2^1024\<close>, and the result is an infinity, exactly
  when \<open>e\<close> is above 1023, or \<open>e\<close> is 1023 and \<open>m\<close> is \<open>2^53 = 9007199254740992\<close>.\<close>

definition roundDouble :: "rat \<Rightarrow> jsnum" where
  "roundDouble x =
     (if x = 0 then Num 0
      else
        (let a = \<bar>x\<bar>;
             e = max (ilog2 a) (- 1022);
             u = pow2 (e - 52);
             m = roundHalfEven (a / u)
         in if 1024 \<le> e \<or> (e = 1023 \<and> m = 9007199254740992)
            then (if 0 < x then PosInf else NegInf)
            else Num (if 0 < x then of_int m * u else - (of_int m * u))))"

text \<open>\<^verbatim>\<open>x / d\<close> and \<^verbatim>\<open>x * d\<close> for a finite positive \<open>d\<close> (the code has \<open>d = 31\<close>),
  \<^verbatim>\<open>Math.ceil(x)\<close> and \<^verbatim>\<open>x - y\<close>.\<close>

definition jsDiv :: "jsnum \<Rightarrow> rat \<Rightarrow> jsnum" where
  "jsDiv x d = (case x of Num r \<Rightarrow> roundDouble (r / d) | NaN \<Rightarrow> NaN
                | PosInf \<Rightarrow> PosInf | NegInf \<Rightarrow> NegInf)"

definition jsMul :: "jsnum \<Rightarrow> rat \<Rightarrow> jsnum" where
  "jsMul x d = (case x of Num r \<Rightarrow> roundDouble (r * d) | NaN \<Rightarrow> NaN
                | PosInf \<Rightarrow> PosInf | NegInf \<Rightarrow> NegInf)"

definition jsCeil :: "jsnum \<Rightarrow> jsnum" where
  "jsCeil x = (case x of Num r \<Rightarrow> Num (of_int \<lceil>r\<rceil>) | NaN \<Rightarrow> NaN
               | PosInf \<Rightarrow> PosInf | NegInf \<Rightarrow> NegInf)"

fun jsSub :: "jsnum \<Rightarrow> jsnum \<Rightarrow> jsnum" where
  "jsSub NaN y = NaN"
| "jsSub x NaN = NaN"
| "jsSub PosInf PosInf = NaN"
| "jsSub NegInf NegInf = NaN"
| "jsSub PosInf y = PosInf"
| "jsSub NegInf y = NegInf"
| "jsSub (Num a) PosInf = NegInf"
| "jsSub (Num a) NegInf = PosInf"
| "jsSub (Num a) (Num b) = roundDouble (a - b)"

text \<open>\<^verbatim>\<open>Array.prototype.slice(0, end)\<close> for a number \<^verbatim>\<open>end\<close>: the end is first made
  an integer or an infinity (\<^verbatim>\<open>NaN\<close> gives 0, a finite number is truncated towards 0).\<close>

definition jsSlice0 :: "'a list \<Rightarrow> jsnum \<Rightarrow> 'a list" where
  "jsSlice0 xs e =
     (case e of
        Num r \<Rightarrow> slice0 xs (if 0 \<le> r then \<lfloor>r\<rfloor> else \<lceil>r\<rceil>)
      | NaN \<Rightarrow> slice0 xs 0
      | PosInf \<Rightarrow> xs
      | NegInf \<Rightarrow> [])"

text \<open>Modelled from the spec: \<^verbatim>\<open>Bytes.chunk(size)\<close> is not part of the file. The
  spec: it "splits into fixed 31-byte groups, last group always full due to padding".\<close>

fun chunk :: "'a list \<Rightarrow> nat \<Rightarrow> 'a list list" where
  "chunk xs sz = (if xs = [] \<or> sz = 0 then [] else take sz xs # chunk (drop sz xs) sz)"

declare chunk.simps [simp del]

text \<open>Modelled from the spec: \<^verbatim>\<open>Field.assertEquals\<close> is not part of the file. The
  spec: "an assertEqual/equality check usable for the tag comparison"; comparing with
  \<^verbatim>\<open>undefined\<close> throws as well.\<close>

definition assertEquals :: "'f \<Rightarrow> 'f option \<Rightarrow> error + unit" where
  "assertEquals x y =
     (case y of None \<Rightarrow> Inl UndefinedOperand
      | Some v \<Rightarrow> if x = v then Inr () else Inl AssertEqualsFailed)"

subsection \<open>Legacy encrypt and decrypt\<close>

text \<open>The \<^verbatim>\<open>for\<close> loop of \<^verbatim>\<open>encrypt\<close>; the loop state is the index, the sponge and
  the \<^verbatim>\<open>cipherText\<close> array built so far.\<close>

function encrypt_loop ::
  "('f, 'g, 'k, 's) prims \<Rightarrow> 'f list \<Rightarrow> nat \<Rightarrow> 's \<times> 'f list \<Rightarrow> 's \<times> 'f list" where
  "encrypt_loop P message i (sponge, cipherText') =
     (if i < length message then
        (let (keyStream, sponge1) = squeeze P sponge;
             encryptedChunk = fadd P (message ! i) keyStream;
             cipherText1 = cipherText' @ [encryptedChunk];
             sponge2 = (if i mod 2 = 1 then absorb P sponge1 (cipherText1 ! (i - 1)) else sponge1);
             sponge3 = (if i mod 2 = 1 \<or> i = length message - 1
                        then absorb P sponge2 (cipherText1 ! i) else sponge2)
         in encrypt_loop P message (i + 1) (sponge3, cipherText1))
      else (sponge, cipherText'))"
  by pat_completeness auto
termination
  by (relation "measure (\<lambda>(P, message, i, st). length message - i)") auto

declare encrypt_loop.simps [simp del]

definition encrypt ::
  "('f, 'g, 'k, 's) prims \<Rightarrow> 'f list \<Rightarrow> 'g \<Rightarrow> 'k \<Rightarrow> ('f, 'g) CipherText" where
  "encrypt P message otherPublicKey privateKey =
     (let publicKey' = scale P (generator P) privateKey;
          sharedSecret = scale P otherPublicKey privateKey;
          sponge = absorb P (newSponge P) (xcoord P sharedSecret);
          (sponge, cipherText') = encrypt_loop P message 0 (sponge, []);
          (authenticationTag, sponge) = squeeze P sponge
      in \<lparr>publicKey = publicKey', cipherText = cipherText' @ [authenticationTag]\<rparr>)"

text \<open>The \<^verbatim>\<open>for\<close> loop of \<^verbatim>\<open>decrypt\<close>, over the array left after the pop.\<close>

function decrypt_loop ::
  "('f, 'g, 'k, 's) prims \<Rightarrow> 'f list \<Rightarrow> nat \<Rightarrow> 's \<times> 'f list \<Rightarrow> 's \<times> 'f list" where
  "decrypt_loop P cipherText' i (sponge, message) =
     (if i < length cipherText' then
        (let (keyStream, sponge1) = squeeze P sponge;
             messageChunk = fsub P (cipherText' ! i) keyStream;
             message1 = message @ [messageChunk];
             sponge2 = (if i mod 2 = 1 then absorb P sponge1 (cipherText' ! (i - 1)) else sponge1);
             sponge3 = (if i mod 2 = 1 \<or> i = length cipherText' - 1
                        then absorb P sponge2 (cipherText' ! i) else sponge2)
         in decrypt_loop P cipherText' (i + 1) (sponge3, message1))
      else (sponge, message))"
  by pat_completeness auto
termination
  by (relation "measure (\<lambda>(P, cipherText', i, st). length cipherText' - i)") auto

declare decrypt_loop.simps [simp del]

text \<open>\<^verbatim>\<open>decrypt\<close> pops the tag off the caller's array: the second component of the
  result is the caller's ciphertext object after the call (also when the call throws).\<close>

definition decrypt ::
  "('f, 'g, 'k, 's) prims \<Rightarrow> ('f, 'g) CipherText \<Rightarrow> 'k
     \<Rightarrow> (error + 'f list) \<times> ('f, 'g) CipherText" where
  "decrypt P c privateKey =
     (let sharedSecret = scale P (publicKey c) privateKey;
          sponge = absorb P (newSponge P) (xcoord P sharedSecret);
          (authenticationTag, cipherText1) = pop (cipherText c);
          (sponge, message) = decrypt_loop P cipherText1 0 (sponge, []);
          (tag, sponge) = squeeze P sponge
      in (case assertEquals tag authenticationTag of
            Inl e \<Rightarrow> Inl e
          | Inr u \<Rightarrow> Inr message,
          c\<lparr>cipherText := cipherText1\<rparr>))"

subsection \<open>encryptV2 and decryptV2\<close>

text \<open>The \<^verbatim>\<open>for\<close> loop of \<^verbatim>\<open>decryptV2\<close>; \<^verbatim>\<open>message\<close> is the array of the byte
  arrays of the chunks.\<close>

function decryptV2_loop ::
  "('f, 'g, 'k, 's) prims \<Rightarrow> 'f list \<Rightarrow> nat \<Rightarrow> 's \<times> UInt8 list list \<Rightarrow> 's \<times> UInt8 list list" where
  "decryptV2_loop P cipherText' i (sponge, message) =
     (if i < length cipherText' then
        (let sponge0 = (if i = length cipherText' - 1 then absorb P sponge (fieldConst P 1)
                        else absorb P sponge (fieldConst P 0));
             (keyStream, sponge1) = squeeze P sponge0;
             messageChunk = fsub P (cipherText' ! i) keyStream;
             byteMessage = wordToBytes P messageChunk 32;
             message1 = message @ [byteMessage];
             sponge2 = (if i mod 2 = 1 then absorb P sponge1 (cipherText' ! (i - 1)) else sponge1);
             sponge3 = (if i mod 2 = 1 \<or> i = length cipherText' - 1
                        then absorb P sponge2 (cipherText' ! i) else sponge2)
         in decryptV2_loop P cipherText' (i + 1) (sponge3, message1))
      else (sponge, message))"
  by pat_completeness auto
termination
  by (relation "measure (\<lambda>(P, cipherText', i, st). length cipherText' - i)") auto

declare decryptV2_loop.simps [simp del]

definition decryptV2 ::
  "('f, 'g, 'k, 's) prims \<Rightarrow> ('f, 'g) CipherTextV2 \<Rightarrow> 'k
     \<Rightarrow> (error + Bytes) \<times> ('f, 'g) CipherTextV2" where
  "decryptV2 P c privateKey =
     (let sharedSecret = scale P (publicKey c) privateKey;
          sponge = absorb P (newSponge P) (xcoord P sharedSecret);
          (authenticationTag, cipherText1) = pop (cipherText c);
          (sponge, message) = decryptV2_loop P cipherText1 0 (sponge, []);
          (tag, sponge) = squeeze P sponge
      in (case assertEquals tag authenticationTag of
            Inl e \<Rightarrow> Inl e
          | Inr u \<Rightarrow>
              (let multipleOf = 31;
                   n = jsMul (jsCeil (jsDiv (messageLength c) multipleOf)) multipleOf
               in Inr \<lparr>bytes = jsSlice0 (concat message) (jsSub (messageLength c) n)\<rparr>),
          c\<lparr>cipherText := cipherText1\<rparr>))"

text \<open>The \<^verbatim>\<open>for ... of chunks.entries()\<close> loop of \<^verbatim>\<open>encryptV2\<close>.\<close>

function encryptV2_loop ::
  "('f, 'g, 'k, 's) prims \<Rightarrow> UInt8 list list \<Rightarrow> nat \<Rightarrow> 's \<times> 'f list \<Rightarrow> 's \<times> 'f list" where
  "encryptV2_loop P chunks n (sponge, cipherText') =
     (if n < length chunks then
        (let chunk_n = chunks ! n;
             sponge0 = (if n = length chunks - 1 then absorb P sponge (fieldConst P 1)
                        else absorb P sponge (fieldConst P 0));
             (keyStream, sponge1) = squeeze P sponge0;
             encryptedChunk = fadd P (bytesToWord P chunk_n) keyStream;
             cipherText1 = cipherText' @ [encryptedChunk];
             sponge2 = (if n mod 2 = 1 then absorb P sponge1 (cipherText1 ! (n - 1)) else sponge1);
             sponge3 = (if n mod 2 = 1 \<or> n = length chunks - 1
                        then absorb P sponge2 (cipherText1 ! n) else sponge2)
         in encryptV2_loop P chunks (n + 1) (sponge3, cipherText1))
      else (sponge, cipherText'))"
  by pat_completeness auto
termination
  by (relation "measure (\<lambda>(P, chunks, n, st). length chunks - n)") auto

declare encryptV2_loop.simps [simp del]

text \<open>\<^verbatim>\<open>encryptV2\<close> assigns the padded array to \<^verbatim>\<open>message.bytes\<close>: the second
  component of the result is the caller's \<^verbatim>\<open>Bytes\<close> object after the call. The
  \<^verbatim>\<open>messageLength\<close> it returns is the number \<^verbatim>\<open>bytes.length\<close>.\<close>

definition encryptV2 ::
  "('f, 'g, 'k, 's) prims \<Rightarrow> Bytes \<Rightarrow> 'g \<Rightarrow> 'k \<Rightarrow> ('f, 'g) CipherTextV2 \<times> Bytes" where
  "encryptV2 P message otherPublicKey privateKey =
     (let bytes0 = bytes message;
          messageLength' = length bytes0;
          multipleOf = 31;
          n = ceilDiv messageLength' multipleOf * multipleOf;
          padding = replicate (n - messageLength') (0 :: UInt8);
          message1 = message\<lparr>bytes := bytes0 @ padding\<rparr>;
          chunks = chunk (bytes message1) 31;
          publicKey' = scale P (generator P) privateKey;
          sharedSecret = scale P otherPublicKey privateKey;
          sponge = absorb P (newSponge P) (xcoord P sharedSecret);
          (sponge, cipherText') = encryptV2_loop P chunks 0 (sponge, []);
          (authenticationTag, sponge) = squeeze P sponge
      in (\<lparr>publicKey = publicKey', cipherText = cipherText' @ [authenticationTag],
           messageLength = Num (of_nat messageLength')\<rparr>, message1))"

subsection \<open>The absorb schedule, as the specification words it\<close>

text \<open>To observe what a run does to its sponge, a sponge is wrapped so that it records
  every operation applied to it. \<open>logging P\<close> computes what \<open>P\<close> computes and keeps the
  list of the operations beside the state of \<open>P\<close>.\<close>

datatype 'f event = Absorb 'f | Squeeze

definition logging ::
  "('f, 'g, 'k, 's) prims \<Rightarrow> ('f, 'g, 'k, 's \<times> 'f event list) prims" where
  "logging P =
     \<lparr>fadd = fadd P, fsub = fsub P, fieldConst = fieldConst P,
      generator = generator P, scale = scale P, xcoord = xcoord P,
      newSponge = (newSponge P, []),
      absorb = (\<lambda>(s, lg) x. (absorb P s x, lg @ [Absorb x])),
      squeeze = (\<lambda>(s, lg). (fst (squeeze P s), (snd (squeeze P s), lg @ [Squeeze]))),
      bytesToWord = bytesToWord P, wordToBytes = wordToBytes P\<rparr>"

text \<open>The schedule in the words of the specification (section 4.2, step 4): "absorb the
  previous ciphertext element when the current chunk index is odd, and absorb the current
  ciphertext element when the current index is odd or this is the final chunk".
  \<open>ct\<close> is the sequence of ciphertext elements without the tag.\<close>

definition tagBinding :: "'f list \<Rightarrow> nat \<Rightarrow> 'f event list" where
  "tagBinding ct i =
     (if i mod 2 = 1 then [Absorb (ct ! (i - 1))] else []) @
     (if i mod 2 = 1 \<or> i + 1 = length ct then [Absorb (ct ! i)] else [])"

text \<open>One streaming step of the legacy operations: squeeze, then the tag binding.\<close>

definition scheduleV1 :: "'f list \<Rightarrow> 'f event list" where
  "scheduleV1 ct = concat (map (\<lambda>i. Squeeze # tagBinding ct i) [0..<length ct])"

text \<open>One streaming step of the V2 operations: the frame field (1 on the last chunk, 0
  otherwise), the squeeze, then the tag binding.\<close>

definition scheduleV2 :: "('f, 'g, 'k, 's) prims \<Rightarrow> 'f list \<Rightarrow> 'f event list" where
  "scheduleV2 P ct =
     concat (map (\<lambda>i. Absorb (fieldConst P (if i + 1 = length ct then 1 else 0)) #
                       Squeeze # tagBinding ct i) [0..<length ct])"

subsection \<open>An instance of the primitives\<close>

text \<open>Concrete inputs need concrete primitives. \<open>toy\<close> takes the integers modulo the
  Pallas base-field prime as field, the multiplicative group modulo that prime as group
  (scalar multiplication is exponentiation), little-endian packing of bytes, and a small
  arithmetic sponge. No property below depends on what this sponge computes.\<close>

definition pallas :: int where
  "pallas = 28948022309329048855892746252171976963363056481941560715954676764349967630337"

definition fromBytesLE :: "UInt8 list \<Rightarrow> int" where
  "fromBytesLE bs = foldr (\<lambda>b acc. uint b + 256 * acc) bs 0"

definition toBytesLE :: "int \<Rightarrow> nat \<Rightarrow> UInt8 list" where
  "toBytesLE w n = map (\<lambda>k. word_of_int (w div 256 ^ k)) [0..<n]"

definition toy :: "(int, int, nat, int) prims" where
  "toy =
     \<lparr>fadd = (\<lambda>a b. (a + b) mod pallas),
      fsub = (\<lambda>a b. (a - b) mod pallas),
      fieldConst = (\<lambda>n. int n mod pallas),
      generator = 5,
      scale = (\<lambda>g k. g ^ k mod pallas),
      xcoord = (\<lambda>g. g),
      newSponge = 0,
      absorb = (\<lambda>s x. (3 * s + x + 1) mod pallas),
      squeeze = (\<lambda>s. ((s * s + 5) mod pallas, (s + 7) mod pallas)),
      bytesToWord = (\<lambda>bs. fromBytesLE bs mod pallas),
      wordToBytes = toBytesLE\<rparr>"

section \<open>Arithmetic of the padding\<close>

text \<open>\<open>ceilDiv\<close> is the ceiling of the real quotient, which is what
  \<^verbatim>\<open>Math.ceil(messageLength / multipleOf)\<close> computes.\<close>

lemma ceilDiv_real: "0 < b \<Longrightarrow> int (ceilDiv a b) = \<lceil>real a / real b\<rceil>"
proof -
  assume b: "0 < b"
  have m: "(int a mod int b = 0) = (a mod b = 0)"
    by (metis of_nat_mod of_nat_eq_0_iff)
  have q: "int a div int b = int (a div b)"
    by (rule zdiv_int[symmetric])
  have "\<lceil>real a / real b\<rceil> = \<lceil>real_of_int (int a) / real_of_int (int b)\<rceil>" by simp
  also have "\<dots> = - (- int a div int b)" by (rule ceiling_divide_eq_div)
  also have "\<dots> = (if int a mod int b = 0 then int a div int b else int a div int b + 1)"
    using b by (simp only: zdiv_zminus1_eq_if of_nat_eq_0_iff split: if_splits) auto
  also have "\<dots> = int (if a mod b = 0 then a div b else a div b + 1)"
    unfolding m q by simp
  finally show ?thesis unfolding ceilDiv_def by simp
qed

lemma ceilDiv_step: "0 < sz \<Longrightarrow> 0 < n \<Longrightarrow> ceilDiv n sz = Suc (ceilDiv (n - sz) sz)"
proof (cases "sz \<le> n")
  case True
  assume sz: "0 < sz"
  from True sz have a: "n div sz = Suc ((n - sz) div sz)"
    by (rule_tac le_div_geq) 
  from True have b: "n mod sz = (n - sz) mod sz"
    by (rule le_mod_geq)
  show ?thesis
    unfolding ceilDiv_def a b by simp
next
  case False
  assume "0 < n"
  with False show ?thesis unfolding ceilDiv_def by simp
qed

lemma chunk_Nil: "chunk [] sz = []"
  by (subst chunk.simps) simp

lemma chunk_step: "xs \<noteq> [] \<Longrightarrow> 0 < sz \<Longrightarrow> chunk xs sz = take sz xs # chunk (drop sz xs) sz"
  by (subst chunk.simps) simp

lemma length_chunk: "0 < sz \<Longrightarrow> length (chunk xs sz) = ceilDiv (length xs) sz"
proof (induction xs sz rule: chunk.induct)
  case (1 xs sz)
  show ?case
  proof (cases "xs = []")
    case True
    then show ?thesis by (simp add: chunk_Nil ceilDiv_def)
  next
    case False
    with 1 have IH: "length (chunk (drop sz xs) sz) = ceilDiv (length xs - sz) sz" by simp
    from False have "0 < length xs" by simp
    from ceilDiv_step[OF "1.prems" this] have c: "ceilDiv (length xs) sz = Suc (ceilDiv (length xs - sz) sz)" .
    show ?thesis
      unfolding chunk_step[OF False "1.prems"] c using IH by simp
  qed
qed

lemma ceilDiv31_ge: "a \<le> ceilDiv a 31 * 31"
  unfolding ceilDiv_def by (simp; presburger)

lemma ceilDiv31_lt: "ceilDiv a 31 * 31 < a + 31"
  unfolding ceilDiv_def by (simp; presburger)

lemma ceilDiv31_dvd: "31 dvd a \<Longrightarrow> ceilDiv a 31 * 31 = a"
  unfolding ceilDiv_def by (simp; presburger)

lemma ceilDiv31_mult: "ceilDiv (ceilDiv a 31 * 31) 31 = ceilDiv a 31"
  unfolding ceilDiv_def by simp

section \<open>The loops of the legacy operations\<close>


lemma encrypt_loop_done: "length message \<le> i \<Longrightarrow> encrypt_loop P message i st = st"
  by (cases st) (simp add: encrypt_loop.simps)

lemma encrypt_loop_step:
  assumes "i < length message" and "squeeze P s = (k, s1)"
  shows "encrypt_loop P message i (s, ct) =
    encrypt_loop P message (Suc i)
      (if i mod 2 = 1 \<or> i = length message - 1
       then absorb P (if i mod 2 = 1 then absorb P s1 ((ct @ [fadd P (message ! i) k]) ! (i - 1)) else s1)
              ((ct @ [fadd P (message ! i) k]) ! i)
       else (if i mod 2 = 1 then absorb P s1 ((ct @ [fadd P (message ! i) k]) ! (i - 1)) else s1),
       ct @ [fadd P (message ! i) k])"
  using assms by (subst encrypt_loop.simps) (simp add: Let_def)

lemma decrypt_loop_done: "length ct \<le> i \<Longrightarrow> decrypt_loop P ct i st = st"
  by (cases st) (simp add: decrypt_loop.simps)

lemma decrypt_loop_step:
  assumes "i < length ct" and "squeeze P s = (k, s1)"
  shows "decrypt_loop P ct i (s, m) =
    decrypt_loop P ct (Suc i)
      (if i mod 2 = 1 \<or> i = length ct - 1
       then absorb P (if i mod 2 = 1 then absorb P s1 (ct ! (i - 1)) else s1) (ct ! i)
       else (if i mod 2 = 1 then absorb P s1 (ct ! (i - 1)) else s1),
       m @ [fsub P (ct ! i) k])"
  using assms by (subst decrypt_loop.simps) (simp add: Let_def)

lemma encrypt_loop_inv:
  "i \<le> length message \<Longrightarrow> length ct = i \<Longrightarrow>
   length (snd (encrypt_loop P message i (s, ct))) = length message \<and>
   take i (snd (encrypt_loop P message i (s, ct))) = ct"
proof (induction "length message - i" arbitrary: i s ct)
  case 0
  then show ?case by (simp add: encrypt_loop_done)
next
  case (Suc d)
  then have lt: "i < length message" by simp
  obtain k s1 where sq: "squeeze P s = (k, s1)" by (cases "squeeze P s")
  define c1 where "c1 = ct @ [fadd P (message ! i) k]"
  define s3 where "s3 = (if i mod 2 = 1 \<or> i = length message - 1
       then absorb P (if i mod 2 = 1 then absorb P s1 (c1 ! (i - 1)) else s1) (c1 ! i)
       else (if i mod 2 = 1 then absorb P s1 (c1 ! (i - 1)) else s1))"
  define R where "R = encrypt_loop P message (Suc i) (s3, c1)"
  have unf: "encrypt_loop P message i (s, ct) = R"
    unfolding R_def s3_def c1_def by (rule encrypt_loop_step[OF lt sq])
  have d: "d = length message - Suc i" using Suc.hyps(2) by simp
  have len1: "length c1 = Suc i" using Suc.prems(2) by (simp add: c1_def)
  have IH: "length (snd R) = length message \<and> take (Suc i) (snd R) = c1"
    unfolding R_def using Suc.hyps(1)[OF d _ len1] lt by simp
  then have "take i (take (Suc i) (snd R)) = take i c1" by simp
  then have "take i (snd R) = ct" using Suc.prems(2) by (simp add: c1_def)
  with IH show ?case unfolding unf by simp
qed

lemma decrypt_encrypt_loop:
  "i \<le> length message \<Longrightarrow> length ct = i \<Longrightarrow>
   fst (decrypt_loop P (snd (encrypt_loop P message i (s, ct))) i (s, m)) =
     fst (encrypt_loop P message i (s, ct)) \<and>
   ((\<forall>a\<in>set message. \<forall>k. fsub P (fadd P a k) k = a) \<longrightarrow>
    snd (decrypt_loop P (snd (encrypt_loop P message i (s, ct))) i (s, m)) = m @ drop i message)"
proof (induction "length message - i" arbitrary: i s ct m)
  case 0
  then show ?case by (simp add: encrypt_loop_done decrypt_loop_done)
next
  case (Suc d)
  then have lt: "i < length message" by simp
  obtain k s1 where sq: "squeeze P s = (k, s1)" by (cases "squeeze P s")
  define c1 where "c1 = ct @ [fadd P (message ! i) k]"
  define s3 where "s3 = (if i mod 2 = 1 \<or> i = length message - 1
       then absorb P (if i mod 2 = 1 then absorb P s1 (c1 ! (i - 1)) else s1) (c1 ! i)
       else (if i mod 2 = 1 then absorb P s1 (c1 ! (i - 1)) else s1))"
  define R where "R = encrypt_loop P message (Suc i) (s3, c1)"
  have unf: "encrypt_loop P message i (s, ct) = R"
    unfolding R_def s3_def c1_def by (rule encrypt_loop_step[OF lt sq])
  have d: "d = length message - Suc i" using Suc.hyps(2) by simp
  have len1: "length c1 = Suc i" using Suc.prems(2) by (simp add: c1_def)
  have inv: "length (snd R) = length message" "take (Suc i) (snd R) = c1"
    unfolding R_def using encrypt_loop_inv[of "Suc i" message c1 P s3] lt len1 by simp_all
  have nth: "snd R ! j = c1 ! j" if "j \<le> i" for j
  proof -
    have "take (Suc i) (snd R) ! j = snd R ! j" using that by simp
    then show ?thesis using inv(2) by simp
  qed
  have Ri: "snd R ! i = c1 ! i" and Rp: "snd R ! (i - 1) = c1 ! (i - 1)"
    by (rule nth, simp)+
  have lt': "i < length (snd R)" using inv(1) lt by simp
  have c1i: "c1 ! i = fadd P (message ! i) k"
    using Suc.prems(2) by (auto simp: c1_def nth_append)
  have stepD: "decrypt_loop P (snd R) i (s, m) =
        decrypt_loop P (snd R) (Suc i) (s3, m @ [fsub P (fadd P (message ! i) k) k])"
    unfolding decrypt_loop_step[OF lt' sq] s3_def by (simp only: Ri Rp inv(1) c1i)
  have IH: "fst (decrypt_loop P (snd R) (Suc i) (s3, m')) = fst R \<and>
   ((\<forall>a\<in>set message. \<forall>k. fsub P (fadd P a k) k = a) \<longrightarrow>
     snd (decrypt_loop P (snd R) (Suc i) (s3, m')) = m' @ drop (Suc i) message)" for m'
    unfolding R_def using Suc.hyps(1)[OF d _ len1] lt by simp
  show ?case
  proof (intro conjI impI)
    show "fst (decrypt_loop P (snd (encrypt_loop P message i (s, ct))) i (s, m)) =
          fst (encrypt_loop P message i (s, ct))"
      unfolding unf stepD using IH by simp
  next
    assume law: "\<forall>a\<in>set message. \<forall>k. fsub P (fadd P a k) k = a"
    then have "fsub P (fadd P (message ! i) k) k = message ! i" using lt by simp
    then show "snd (decrypt_loop P (snd (encrypt_loop P message i (s, ct))) i (s, m)) =
          m @ drop i message"
      unfolding unf stepD using IH law lt by (simp add: Cons_nth_drop_Suc)
  qed
qed

section \<open>The loops of the V2 operations\<close>


lemma encryptV2_loop_done: "length chunks \<le> n \<Longrightarrow> encryptV2_loop P chunks n st = st"
  by (cases st) (simp add: encryptV2_loop.simps)

lemma encryptV2_loop_step:
  assumes "n < length chunks"
    and "squeeze P (absorb P s (fieldConst P (if n = length chunks - 1 then 1 else 0))) = (k, s1)"
  shows "encryptV2_loop P chunks n (s, ct) =
    encryptV2_loop P chunks (Suc n)
      (if n mod 2 = 1 \<or> n = length chunks - 1
       then absorb P (if n mod 2 = 1
                      then absorb P s1 ((ct @ [fadd P (bytesToWord P (chunks ! n)) k]) ! (n - 1))
                      else s1)
              ((ct @ [fadd P (bytesToWord P (chunks ! n)) k]) ! n)
       else (if n mod 2 = 1
             then absorb P s1 ((ct @ [fadd P (bytesToWord P (chunks ! n)) k]) ! (n - 1))
             else s1),
       ct @ [fadd P (bytesToWord P (chunks ! n)) k])"
proof (cases "n = length chunks - 1")
  case True
  with assms show ?thesis by (subst encryptV2_loop.simps) (simp add: Let_def)
next
  case False
  with assms show ?thesis by (subst encryptV2_loop.simps) (simp add: Let_def)
qed

lemma decryptV2_loop_done: "length ct \<le> i \<Longrightarrow> decryptV2_loop P ct i st = st"
  by (cases st) (simp add: decryptV2_loop.simps)

lemma decryptV2_loop_step:
  assumes "i < length ct"
    and "squeeze P (absorb P s (fieldConst P (if i = length ct - 1 then 1 else 0))) = (k, s1)"
  shows "decryptV2_loop P ct i (s, m) =
    decryptV2_loop P ct (Suc i)
      (if i mod 2 = 1 \<or> i = length ct - 1
       then absorb P (if i mod 2 = 1 then absorb P s1 (ct ! (i - 1)) else s1) (ct ! i)
       else (if i mod 2 = 1 then absorb P s1 (ct ! (i - 1)) else s1),
       m @ [wordToBytes P (fsub P (ct ! i) k) 32])"
proof (cases "i = length ct - 1")
  case True
  with assms show ?thesis by (subst decryptV2_loop.simps) (simp add: Let_def)
next
  case False
  with assms show ?thesis by (subst decryptV2_loop.simps) (simp add: Let_def)
qed

lemma encryptV2_loop_inv:
  "n \<le> length chunks \<Longrightarrow> length ct = n \<Longrightarrow>
   length (snd (encryptV2_loop P chunks n (s, ct))) = length chunks \<and>
   take n (snd (encryptV2_loop P chunks n (s, ct))) = ct"
proof (induction "length chunks - n" arbitrary: n s ct)
  case 0
  then show ?case by (simp add: encryptV2_loop_done)
next
  case (Suc d)
  then have lt: "n < length chunks" by simp
  obtain k s1 where
    sq: "squeeze P (absorb P s (fieldConst P (if n = length chunks - 1 then 1 else 0))) = (k, s1)"
    by (cases "squeeze P (absorb P s (fieldConst P (if n = length chunks - 1 then 1 else 0)))")
  define c1 where "c1 = ct @ [fadd P (bytesToWord P (chunks ! n)) k]"
  define s3 where "s3 = (if n mod 2 = 1 \<or> n = length chunks - 1
       then absorb P (if n mod 2 = 1 then absorb P s1 (c1 ! (n - 1)) else s1) (c1 ! n)
       else (if n mod 2 = 1 then absorb P s1 (c1 ! (n - 1)) else s1))"
  define R where "R = encryptV2_loop P chunks (Suc n) (s3, c1)"
  have unf: "encryptV2_loop P chunks n (s, ct) = R"
    unfolding R_def s3_def c1_def by (rule encryptV2_loop_step[OF lt sq])
  have d: "d = length chunks - Suc n" using Suc.hyps(2) by simp
  have len1: "length c1 = Suc n" using Suc.prems(2) by (simp add: c1_def)
  have IH: "length (snd R) = length chunks \<and> take (Suc n) (snd R) = c1"
    unfolding R_def using Suc.hyps(1)[OF d _ len1] lt by simp
  then have "take n (take (Suc n) (snd R)) = take n c1" by simp
  then have "take n (snd R) = ct" using Suc.prems(2) by (simp add: c1_def)
  with IH show ?case unfolding unf by simp
qed

lemma decryptV2_encryptV2_loop:
  "n \<le> length chunks \<Longrightarrow> length ct = n \<Longrightarrow>
   fst (decryptV2_loop P (snd (encryptV2_loop P chunks n (s, ct))) n (s, m)) =
     fst (encryptV2_loop P chunks n (s, ct)) \<and>
   ((\<forall>c\<in>set chunks. \<forall>k. wordToBytes P (fsub P (fadd P (bytesToWord P c) k) k) 32 = D c) \<longrightarrow>
    snd (decryptV2_loop P (snd (encryptV2_loop P chunks n (s, ct))) n (s, m)) =
      m @ map D (drop n chunks))"
proof (induction "length chunks - n" arbitrary: n s ct m)
  case 0
  then show ?case by (simp add: encryptV2_loop_done decryptV2_loop_done)
next
  case (Suc d)
  then have lt: "n < length chunks" by simp
  obtain k s1 where
    sq: "squeeze P (absorb P s (fieldConst P (if n = length chunks - 1 then 1 else 0))) = (k, s1)"
    by (cases "squeeze P (absorb P s (fieldConst P (if n = length chunks - 1 then 1 else 0)))")
  define c1 where "c1 = ct @ [fadd P (bytesToWord P (chunks ! n)) k]"
  define s3 where "s3 = (if n mod 2 = 1 \<or> n = length chunks - 1
       then absorb P (if n mod 2 = 1 then absorb P s1 (c1 ! (n - 1)) else s1) (c1 ! n)
       else (if n mod 2 = 1 then absorb P s1 (c1 ! (n - 1)) else s1))"
  define R where "R = encryptV2_loop P chunks (Suc n) (s3, c1)"
  have unf: "encryptV2_loop P chunks n (s, ct) = R"
    unfolding R_def s3_def c1_def by (rule encryptV2_loop_step[OF lt sq])
  have d: "d = length chunks - Suc n" using Suc.hyps(2) by simp
  have len1: "length c1 = Suc n" using Suc.prems(2) by (simp add: c1_def)
  have inv: "length (snd R) = length chunks" "take (Suc n) (snd R) = c1"
    unfolding R_def using encryptV2_loop_inv[of "Suc n" chunks c1 P s3] lt len1 by simp_all
  have nth: "snd R ! j = c1 ! j" if "j \<le> n" for j
  proof -
    have "take (Suc n) (snd R) ! j = snd R ! j" using that by simp
    then show ?thesis using inv(2) by simp
  qed
  have Ri: "snd R ! n = c1 ! n" and Rp: "snd R ! (n - 1) = c1 ! (n - 1)"
    by (rule nth, simp)+
  have lt': "n < length (snd R)" using inv(1) lt by simp
  have sq': "squeeze P (absorb P s (fieldConst P (if n = length (snd R) - 1 then 1 else 0))) = (k, s1)"
    using sq by (simp only: inv(1))
  have c1n: "c1 ! n = fadd P (bytesToWord P (chunks ! n)) k"
    using Suc.prems(2) by (auto simp: c1_def nth_append)
  have stepD: "decryptV2_loop P (snd R) n (s, m) =
        decryptV2_loop P (snd R) (Suc n)
          (s3, m @ [wordToBytes P (fsub P (fadd P (bytesToWord P (chunks ! n)) k) k) 32])"
    unfolding decryptV2_loop_step[OF lt' sq'] s3_def by (simp only: Ri Rp inv(1) c1n)
  have IH: "fst (decryptV2_loop P (snd R) (Suc n) (s3, m')) = fst R \<and>
   ((\<forall>c\<in>set chunks. \<forall>k. wordToBytes P (fsub P (fadd P (bytesToWord P c) k) k) 32 = D c) \<longrightarrow>
     snd (decryptV2_loop P (snd R) (Suc n) (s3, m')) = m' @ map D (drop (Suc n) chunks))" for m'
    unfolding R_def using Suc.hyps(1)[OF d _ len1] lt by simp
  show ?case
  proof (intro conjI impI)
    show "fst (decryptV2_loop P (snd (encryptV2_loop P chunks n (s, ct))) n (s, m)) =
          fst (encryptV2_loop P chunks n (s, ct))"
      unfolding unf stepD using IH by simp
  next
    assume law: "\<forall>c\<in>set chunks. \<forall>k. wordToBytes P (fsub P (fadd P (bytesToWord P c) k) k) 32 = D c"
    then have "wordToBytes P (fsub P (fadd P (bytesToWord P (chunks ! n)) k) k) 32 = D (chunks ! n)"
      using lt by simp
    then show "snd (decryptV2_loop P (snd (encryptV2_loop P chunks n (s, ct))) n (s, m)) =
          m @ map D (drop n chunks)"
      unfolding unf stepD using IH law lt by (simp flip: Cons_nth_drop_Suc)
  qed
qed

section \<open>The four operations on a ciphertext with its tag\<close>


lemma pop_snoc: "pop (cs @ [t]) = (Some t, cs)"
  by (simp add: pop_def)

lemma encrypt_eq:
  "encrypt P message pk esk =
     \<lparr>publicKey = scale P (generator P) esk,
      cipherText =
        snd (encrypt_loop P message 0 (absorb P (newSponge P) (xcoord P (scale P pk esk)), [])) @
        [fst (squeeze P (fst (encrypt_loop P message 0
               (absorb P (newSponge P) (xcoord P (scale P pk esk)), []))))]\<rparr>"
  by (simp add: encrypt_def Let_def split: prod.splits)

lemma decrypt_snoc:
  "fst (decrypt P \<lparr>publicKey = g, cipherText = cs @ [t]\<rparr> sk) =
     (if fst (squeeze P (fst (decrypt_loop P cs 0
                 (absorb P (newSponge P) (xcoord P (scale P g sk)), [])))) = t
      then Inr (snd (decrypt_loop P cs 0 (absorb P (newSponge P) (xcoord P (scale P g sk)), [])))
      else Inl AssertEqualsFailed)"
  by (simp add: decrypt_def pop_snoc assertEquals_def Let_def split: prod.splits)

lemma decrypt_encrypt:
  assumes dh: "scale P (scale P (generator P) esk) sk = scale P (scale P (generator P) sk) esk"
    and cancel: "\<forall>a\<in>set message. \<forall>k. fsub P (fadd P a k) k = a"
  shows "fst (decrypt P (encrypt P message (scale P (generator P) sk) esk) sk) = Inr message"
proof -
  define s0 where "s0 = absorb P (newSponge P) (xcoord P (scale P (scale P (generator P) sk) esk))"
  define R where "R = encrypt_loop P message 0 (s0, [])"
  have sim: "fst (decrypt_loop P (snd R) 0 (s0, [])) = fst R"
            "snd (decrypt_loop P (snd R) 0 (s0, [])) = message"
    unfolding R_def using decrypt_encrypt_loop[of 0 message "[]" P s0 "[]"] cancel by simp_all
  show ?thesis
    unfolding encrypt_eq decrypt_snoc dh
    unfolding s0_def[symmetric] R_def[symmetric] sim by simp
qed

lemma encryptV2_fst:
  "fst (encryptV2 P message pk esk) =
     \<lparr>publicKey = scale P (generator P) esk,
      cipherText =
        snd (encryptV2_loop P
              (chunk (bytes message @
                 replicate (ceilDiv (length (bytes message)) 31 * 31 - length (bytes message)) 0) 31)
              0 (absorb P (newSponge P) (xcoord P (scale P pk esk)), [])) @
        [fst (squeeze P (fst (encryptV2_loop P
              (chunk (bytes message @
                 replicate (ceilDiv (length (bytes message)) 31 * 31 - length (bytes message)) 0) 31)
              0 (absorb P (newSponge P) (xcoord P (scale P pk esk)), []))))],
      messageLength = Num (of_nat (length (bytes message)))\<rparr>"
  by (simp add: encryptV2_def Let_def split: prod.splits)

lemma encryptV2_snd:
  "snd (encryptV2 P message pk esk) =
     message\<lparr>bytes := bytes message @
        replicate (ceilDiv (length (bytes message)) 31 * 31 - length (bytes message)) 0\<rparr>"
  by (simp add: encryptV2_def Let_def split: prod.splits)

lemma decryptV2_snoc:
  "fst (decryptV2 P \<lparr>publicKey = g, cipherText = cs @ [t], messageLength = L\<rparr> sk) =
     (if fst (squeeze P (fst (decryptV2_loop P cs 0
                 (absorb P (newSponge P) (xcoord P (scale P g sk)), [])))) = t
      then Inr \<lparr>bytes = jsSlice0
             (concat (snd (decryptV2_loop P cs 0
                 (absorb P (newSponge P) (xcoord P (scale P g sk)), []))))
             (jsSub L (jsMul (jsCeil (jsDiv L 31)) 31))\<rparr>
      else Inl AssertEqualsFailed)"
  by (simp add: decryptV2_def pop_snoc assertEquals_def Let_def split: prod.splits)

lemma decrypt_snd: "snd (decrypt P c sk) = c\<lparr>cipherText := butlast (cipherText c)\<rparr>"
  by (simp add: decrypt_def pop_def Let_def split: prod.splits)

lemma decryptV2_snd: "snd (decryptV2 P c sk) = c\<lparr>cipherText := butlast (cipherText c)\<rparr>"
  by (simp add: decryptV2_def pop_def Let_def split: prod.splits)

lemma decryptV2_encryptV2:
  fixes P :: "('f, 'g, 'k, 's) prims"
  assumes dh: "scale P (scale P (generator P) esk) sk = scale P (scale P (generator P) sk) esk"
    and chunks: "chunks = chunk (bytes message @
                 replicate (ceilDiv (length (bytes message)) 31 * 31 - length (bytes message)) 0) 31"
    and law: "\<forall>c\<in>set chunks. \<forall>k. wordToBytes P (fsub P (fadd P (bytesToWord P c) k) k) 32 = D c"
  shows "fst (decryptV2 P
            ((fst (encryptV2 P message (scale P (generator P) sk) esk))\<lparr>messageLength := L\<rparr>) sk) =
         Inr \<lparr>bytes = jsSlice0 (concat (map D chunks))
                             (jsSub L (jsMul (jsCeil (jsDiv L 31)) 31))\<rparr>"
proof -
  define s0 where "s0 = absorb P (newSponge P) (xcoord P (scale P (scale P (generator P) sk) esk))"
  define R where "R = encryptV2_loop P chunks 0 (s0, [])"
  have sim: "fst (decryptV2_loop P (snd R) 0 (s0, [])) = fst R"
            "snd (decryptV2_loop P (snd R) 0 (s0, [])) = map D chunks"
    unfolding R_def using decryptV2_encryptV2_loop[of 0 chunks "[]" P s0 "[]" D] law by simp_all
  show ?thesis
    unfolding encryptV2_fst chunks[symmetric]
    apply (simp only: CipherTextV2.simps CipherText.simps)
    unfolding decryptV2_snoc dh
    unfolding s0_def[symmetric] R_def[symmetric] sim by simp
qed

section \<open>The operations recorded by the sponge\<close>


lemma logging_absorb: "absorb (logging P) (s, lg) x = (absorb P s x, lg @ [Absorb x])"
  by (simp add: logging_def)

lemma logging_squeeze:
  "squeeze (logging P) (s, lg) = (fst (squeeze P s), (snd (squeeze P s), lg @ [Squeeze]))"
  by (simp add: logging_def)

lemma logging_sel:
  "fadd (logging P) = fadd P" "fsub (logging P) = fsub P" "fieldConst (logging P) = fieldConst P"
  "bytesToWord (logging P) = bytesToWord P" "wordToBytes (logging P) = wordToBytes P"
  by (simp_all add: logging_def)

lemma tagBinding_state:
  assumes "i < length ct"
  shows "(if i mod 2 = 1 \<or> i = length ct - 1
       then absorb (logging P)
              (if i mod 2 = 1 then absorb (logging P) (s1, lg) (ct ! (i - 1)) else (s1, lg)) (ct ! i)
       else (if i mod 2 = 1 then absorb (logging P) (s1, lg) (ct ! (i - 1)) else (s1, lg))) =
     (if i mod 2 = 1 \<or> i = length ct - 1
       then absorb P (if i mod 2 = 1 then absorb P s1 (ct ! (i - 1)) else s1) (ct ! i)
       else (if i mod 2 = 1 then absorb P s1 (ct ! (i - 1)) else s1),
      lg @ tagBinding ct i)"
proof -
  have "(i = length ct - 1) = (i + 1 = length ct)" using assms by auto
  then show ?thesis by (simp add: tagBinding_def logging_absorb)
qed

lemma decrypt_loop_logging:
  "decrypt_loop (logging P) ct i ((s, lg), m) =
     ((fst (decrypt_loop P ct i (s, m)),
       lg @ concat (map (\<lambda>j. Squeeze # tagBinding ct j) [i..<length ct])),
      snd (decrypt_loop P ct i (s, m)))"
proof (induction "length ct - i" arbitrary: i s lg m)
  case 0
  then show ?case by (simp add: decrypt_loop_done)
next
  case (Suc d)
  then have lt: "i < length ct" by simp
  have d: "d = length ct - Suc i" using Suc.hyps(2) by simp
  obtain k s1 where sq: "squeeze P s = (k, s1)" by (cases "squeeze P s")
  then have sqL: "squeeze (logging P) (s, lg) = (k, (s1, lg @ [Squeeze]))"
    by (simp add: logging_squeeze)
  show ?case
    unfolding decrypt_loop_step[OF lt sqL] decrypt_loop_step[OF lt sq] tagBinding_state[OF lt]
      Suc.hyps(1)[OF d] logging_sel
    using lt by (simp add: upt_conv_Cons)
qed

lemma decryptV2_loop_logging:
  "decryptV2_loop (logging P) ct i ((s, lg), m) =
     ((fst (decryptV2_loop P ct i (s, m)),
       lg @ concat (map (\<lambda>j. Absorb (fieldConst P (if j + 1 = length ct then 1 else 0)) #
                               Squeeze # tagBinding ct j) [i..<length ct])),
      snd (decryptV2_loop P ct i (s, m)))"
proof (induction "length ct - i" arbitrary: i s lg m)
  case 0
  then show ?case by (simp add: decryptV2_loop_done)
next
  case (Suc d)
  then have lt: "i < length ct" by simp
  have d: "d = length ct - Suc i" using Suc.hyps(2) by simp
  define fr where "fr = fieldConst P (if i = length ct - 1 then 1 else 0)"
  have fr': "fr = fieldConst P (if i + 1 = length ct then 1 else 0)"
    unfolding fr_def using lt by auto
  obtain k s1 where sq: "squeeze P (absorb P s fr) = (k, s1)" by (cases "squeeze P (absorb P s fr)")
  then have sqL: "squeeze (logging P) (absorb (logging P) (s, lg)
          (fieldConst (logging P) (if i = length ct - 1 then 1 else 0))) =
       (k, (s1, lg @ [Absorb fr, Squeeze]))"
    by (simp add: logging_squeeze logging_absorb logging_sel fr_def)
  show ?case
    unfolding decryptV2_loop_step[OF lt sqL] decryptV2_loop_step[OF lt sq[unfolded fr_def]]
      tagBinding_state[OF lt] Suc.hyps(1)[OF d] logging_sel
    using lt fr' by (simp add: upt_conv_Cons)
qed


lemma logging_absorbs_fst:
  "fst (if c \<or> l
        then absorb (logging P) (if c then absorb (logging P) (s1, lg) a else (s1, lg)) b
        else (if c then absorb (logging P) (s1, lg) a else (s1, lg))) =
   (if c \<or> l then absorb P (if c then absorb P s1 a else s1) b
    else (if c then absorb P s1 a else s1))"
  by (simp add: logging_absorb)

lemma encrypt_loop_logging:
  "fst (fst (encrypt_loop (logging P) message i ((s, lg), ct))) =
     fst (encrypt_loop P message i (s, ct)) \<and>
   snd (encrypt_loop (logging P) message i ((s, lg), ct)) =
     snd (encrypt_loop P message i (s, ct))"
proof (induction "length message - i" arbitrary: i s lg ct)
  case 0
  then show ?case by (simp add: encrypt_loop_done)
next
  case (Suc d)
  then have lt: "i < length message" by simp
  have d: "d = length message - Suc i" using Suc.hyps(2) by simp
  obtain k s1 where sq: "squeeze P s = (k, s1)" by (cases "squeeze P s")
  then have sqL: "squeeze (logging P) (s, lg) = (k, (s1, lg @ [Squeeze]))"
    by (simp add: logging_squeeze)
  define c1 where "c1 = ct @ [fadd P (message ! i) k]"
  define X where "X = (if i mod 2 = 1 \<or> i = length message - 1
        then absorb (logging P)
               (if i mod 2 = 1 then absorb (logging P) (s1, lg @ [Squeeze]) (c1 ! (i - 1))
                else (s1, lg @ [Squeeze])) (c1 ! i)
        else (if i mod 2 = 1 then absorb (logging P) (s1, lg @ [Squeeze]) (c1 ! (i - 1))
              else (s1, lg @ [Squeeze])))"
  have X: "X = (fst X, snd X)" by simp
  have fX: "fst X = (if i mod 2 = 1 \<or> i = length message - 1
        then absorb P (if i mod 2 = 1 then absorb P s1 (c1 ! (i - 1)) else s1) (c1 ! i)
        else (if i mod 2 = 1 then absorb P s1 (c1 ! (i - 1)) else s1))"
    unfolding X_def by (rule logging_absorbs_fst)
  have "encrypt_loop (logging P) message i ((s, lg), ct) =
           encrypt_loop (logging P) message (Suc i) (X, c1)"
    by (simp only: encrypt_loop_step[OF lt sqL] logging_sel X_def c1_def)
  then have L: "encrypt_loop (logging P) message i ((s, lg), ct) =
           encrypt_loop (logging P) message (Suc i) ((fst X, snd X), c1)"
    by simp
  have R: "encrypt_loop P message i (s, ct) = encrypt_loop P message (Suc i) (fst X, c1)"
    by (simp only: encrypt_loop_step[OF lt sq] fX c1_def)
  show ?case unfolding L R by (rule Suc.hyps(1)[OF d])
qed

lemma encryptV2_loop_logging:
  "fst (fst (encryptV2_loop (logging P) chunks n ((s, lg), ct))) =
     fst (encryptV2_loop P chunks n (s, ct)) \<and>
   snd (encryptV2_loop (logging P) chunks n ((s, lg), ct)) =
     snd (encryptV2_loop P chunks n (s, ct))"
proof (induction "length chunks - n" arbitrary: n s lg ct)
  case 0
  then show ?case by (simp add: encryptV2_loop_done)
next
  case (Suc d)
  then have lt: "n < length chunks" by simp
  have d: "d = length chunks - Suc n" using Suc.hyps(2) by simp
  define fr where "fr = fieldConst P (if n = length chunks - 1 then 1 else 0)"
  obtain k s1 where sq: "squeeze P (absorb P s fr) = (k, s1)" by (cases "squeeze P (absorb P s fr)")
  then have sqL: "squeeze (logging P) (absorb (logging P) (s, lg)
          (fieldConst (logging P) (if n = length chunks - 1 then 1 else 0))) =
       (k, (s1, lg @ [Absorb fr, Squeeze]))"
    by (simp add: logging_squeeze logging_absorb logging_sel fr_def)
  define c1 where "c1 = ct @ [fadd P (bytesToWord P (chunks ! n)) k]"
  define lg1 where "lg1 = lg @ [Absorb fr, Squeeze]"
  define X where "X = (if n mod 2 = 1 \<or> n = length chunks - 1
        then absorb (logging P)
               (if n mod 2 = 1 then absorb (logging P) (s1, lg1) (c1 ! (n - 1))
                else (s1, lg1)) (c1 ! n)
        else (if n mod 2 = 1 then absorb (logging P) (s1, lg1) (c1 ! (n - 1))
              else (s1, lg1)))"
  have X: "X = (fst X, snd X)" by simp
  have fX: "fst X = (if n mod 2 = 1 \<or> n = length chunks - 1
        then absorb P (if n mod 2 = 1 then absorb P s1 (c1 ! (n - 1)) else s1) (c1 ! n)
        else (if n mod 2 = 1 then absorb P s1 (c1 ! (n - 1)) else s1))"
    unfolding X_def by (rule logging_absorbs_fst)
  have "encryptV2_loop (logging P) chunks n ((s, lg), ct) =
           encryptV2_loop (logging P) chunks (Suc n) (X, c1)"
    by (simp only: encryptV2_loop_step[OF lt sqL] logging_sel X_def c1_def lg1_def)
  then have L: "encryptV2_loop (logging P) chunks n ((s, lg), ct) =
           encryptV2_loop (logging P) chunks (Suc n) ((fst X, snd X), c1)"
    by simp
  have R: "encryptV2_loop P chunks n (s, ct) = encryptV2_loop P chunks (Suc n) (fst X, c1)"
    by (simp only: encryptV2_loop_step[OF lt sq[unfolded fr_def]] fX c1_def)
  show ?case unfolding L R by (rule Suc.hyps(1)[OF d])
qed

lemma encrypt_loop_log:
  "snd (fst (encrypt_loop (logging P) message 0 ((s, lg), []))) =
     lg @ scheduleV1 (snd (encrypt_loop P message 0 (s, [])))"
proof -
  define RL where "RL = encrypt_loop (logging P) message 0 ((s, lg), [])"
  have "fst (decrypt_loop (logging P) (snd RL) 0 ((s, lg), [])) = fst RL"
    unfolding RL_def using decrypt_encrypt_loop[of 0 message "[]" "logging P" "(s, lg)" "[]"] by simp
  moreover have "snd (fst (decrypt_loop (logging P) (snd RL) 0 ((s, lg), []))) =
                 lg @ scheduleV1 (snd RL)"
    by (simp add: decrypt_loop_logging scheduleV1_def)
  ultimately have "snd (fst RL) = lg @ scheduleV1 (snd RL)" by simp
  then show ?thesis
    unfolding RL_def using encrypt_loop_logging[of P message 0 s lg "[]"] by simp
qed

lemma encryptV2_loop_log:
  "snd (fst (encryptV2_loop (logging P) chunks 0 ((s, lg), []))) =
     lg @ scheduleV2 P (snd (encryptV2_loop P chunks 0 (s, [])))"
proof -
  define RL where "RL = encryptV2_loop (logging P) chunks 0 ((s, lg), [])"
  have "fst (decryptV2_loop (logging P) (snd RL) 0 ((s, lg), [])) = fst RL"
    unfolding RL_def
    using decryptV2_encryptV2_loop[of 0 chunks "[]" "logging P" "(s, lg)" "[]"] by simp
  moreover have "snd (fst (decryptV2_loop (logging P) (snd RL) 0 ((s, lg), []))) =
                 lg @ scheduleV2 P (snd RL)"
    by (simp add: decryptV2_loop_logging scheduleV2_def)
  ultimately have "snd (fst RL) = lg @ scheduleV2 P (snd RL)" by simp
  then show ?thesis
    unfolding RL_def using encryptV2_loop_logging[of P chunks 0 s lg "[]"] by simp
qed

section \<open>Chunks, byte packing and the instance\<close>


lemma chunk_lengths:
  "0 < sz \<Longrightarrow> sz dvd length xs \<Longrightarrow> c \<in> set (chunk xs sz) \<Longrightarrow> length c = sz"
proof (induction xs sz rule: chunk.induct)
  case (1 xs sz)
  show ?case
  proof (cases "xs = []")
    case True
    with "1.prems" show ?thesis by (simp add: chunk_Nil)
  next
    case False
    from "1.prems"(2) obtain q where q: "length xs = sz * q" by (auto simp: dvd_def)
    with False "1.prems"(1) have q0: "0 < q" by (cases q) auto
    then have le: "sz \<le> length xs" using q by (cases q) auto
    have dv: "sz dvd length (drop sz xs)" using q by (simp add: dvd_def) (metis right_diff_distrib' mult.right_neutral)
    from "1.prems"(3) have "c = take sz xs \<or> c \<in> set (chunk (drop sz xs) sz)"
      by (simp add: chunk_step[OF False "1.prems"(1)])
    then show ?thesis
    proof
      assume "c = take sz xs"
      then show ?thesis using le by simp
    next
      assume "c \<in> set (chunk (drop sz xs) sz)"
      then show ?thesis using "1.IH" False "1.prems"(1) dv by simp
    qed
  qed
qed

lemma padded_chunks_31:
  assumes "c \<in> set (chunk (bs @ replicate (ceilDiv (length bs) 31 * 31 - length bs) z) 31)"
  shows "length c = 31"
proof -
  have "length (bs @ replicate (ceilDiv (length bs) 31 * 31 - length bs) z) = ceilDiv (length bs) 31 * 31"
    using ceilDiv31_ge[of "length bs"] by simp
  then have dv: "31 dvd length (bs @ replicate (ceilDiv (length bs) 31 * 31 - length bs) z)" by simp
  have pos: "(0::nat) < 31" by simp
  show ?thesis by (rule chunk_lengths[OF pos dv assms])
qed

lemma fromBytesLE_simps:
  "fromBytesLE [] = 0" "fromBytesLE (b # bs) = uint b + 256 * fromBytesLE bs"
  by (simp_all add: fromBytesLE_def)

lemma fromBytesLE_bounds: "0 \<le> fromBytesLE bs \<and> fromBytesLE bs < 256 ^ length bs"
proof (induction bs)
  case Nil
  then show ?case by (simp add: fromBytesLE_simps)
next
  case (Cons b bs)
  have "uint b < 256" using uint_bounded[of b] by simp
  moreover have "0 \<le> uint b" by simp
  ultimately show ?case using Cons by (simp add: fromBytesLE_simps)
qed

lemma toBytesLE_fromBytesLE:
  "length bs \<le> n \<Longrightarrow> toBytesLE (fromBytesLE bs) n = bs @ replicate (n - length bs) 0"
  unfolding toBytesLE_def
proof (induction bs arbitrary: n)
  case Nil
  then show ?case by (simp add: fromBytesLE_simps map_replicate_const)
next
  case (Cons b bs)
  then obtain n' where n: "n = Suc n'" by (cases n) auto
  have ub: "0 \<le> uint b" "uint b < 256" using uint_bounded[of b] by simp_all
  have d: "(uint b + 256 * fromBytesLE bs) div 256 ^ Suc k = fromBytesLE bs div 256 ^ k" for k
  proof -
    have "(uint b + 256 * fromBytesLE bs) div 256 ^ Suc k =
          ((uint b + 256 * fromBytesLE bs) div 256) div 256 ^ k"
      by (simp add: zdiv_zmult2_eq)
    also have "(uint b + 256 * fromBytesLE bs) div 256 = fromBytesLE bs" using ub by simp
    finally show ?thesis .
  qed
  have h: "(word_of_int (uint b + 256 * fromBytesLE bs) :: UInt8) = b"
  proof -
    have z: "(256 :: UInt8) = 0" by simp
    show ?thesis by (simp add: z)
  qed
  have "map (\<lambda>k. word_of_int (fromBytesLE (b # bs) div 256 ^ k) :: UInt8) [0..<Suc n'] =
        word_of_int (fromBytesLE (b # bs)) #
        map (\<lambda>k. word_of_int (fromBytesLE (b # bs) div 256 ^ Suc k)) [0..<n']"
    by (simp only: upt_conv_Cons[of 0 "Suc n'"] map_Suc_upt[symmetric] list.map zero_less_Suc)
       (simp add: comp_def)
  also have "\<dots> = b # map (\<lambda>k. word_of_int (fromBytesLE bs div 256 ^ k)) [0..<n']"
    unfolding fromBytesLE_simps d h by simp
  also have "\<dots> = b # bs @ replicate (n' - length bs) 0"
    using Cons.IH[of n'] Cons.prems n by simp
  finally show ?case using n by simp
qed

lemma pallas_bounds: "0 < pallas" "256 ^ 31 < pallas"
  by (simp_all add: pallas_def)

lemma toy_dh:
  "scale toy (scale toy (generator toy) a) b = scale toy (scale toy (generator toy) b) a"
  by (simp add: toy_def power_mod mult.commute flip: power_mult)

lemma toy_cancel: "0 \<le> a \<Longrightarrow> a < pallas \<Longrightarrow> fsub toy (fadd toy a k) k = a"
  by (simp add: toy_def mod_diff_left_eq)

lemma toy_chunk:
  assumes "length c = 31"
  shows "wordToBytes toy (fsub toy (fadd toy (bytesToWord toy c) k) k) 32 = c @ [0]"
proof -
  have b: "0 \<le> fromBytesLE c" "fromBytesLE c < pallas"
    using fromBytesLE_bounds[of c] assms pallas_bounds(2) by simp_all
  then have "bytesToWord toy c = fromBytesLE c" by (simp add: toy_def)
  moreover have "fsub toy (fadd toy (fromBytesLE c) k) k = fromBytesLE c"
    using b by (rule toy_cancel)
  moreover have "wordToBytes toy (fromBytesLE c) 32 = c @ [0]"
    using toBytesLE_fromBytesLE[of c 32] assms by (simp add: toy_def)
  ultimately show ?thesis by simp
qed

lemma decrypt_loop_length:
  "length (snd (decrypt_loop P ct i (s, m))) = length m + (length ct - i)"
proof (induction "length ct - i" arbitrary: i s m)
  case 0
  then show ?case by (simp add: decrypt_loop_done)
next
  case (Suc d)
  then have lt: "i < length ct" by simp
  have d: "d = length ct - Suc i" using Suc.hyps(2) by simp
  obtain k s1 where sq: "squeeze P s = (k, s1)" by (cases "squeeze P s")
  show ?case
    unfolding decrypt_loop_step[OF lt sq] Suc.hyps(1)[OF d] using lt by simp
qed

lemma decryptV2_loop_length:
  "length (snd (decryptV2_loop P ct i (s, m))) = length m + (length ct - i)"
proof (induction "length ct - i" arbitrary: i s m)
  case 0
  then show ?case by (simp add: decryptV2_loop_done)
next
  case (Suc d)
  then have lt: "i < length ct" by simp
  have d: "d = length ct - Suc i" using Suc.hyps(2) by simp
  obtain k s1 where
    sq: "squeeze P (absorb P s (fieldConst P (if i = length ct - 1 then 1 else 0))) = (k, s1)"
    by (cases "squeeze P (absorb P s (fieldConst P (if i = length ct - 1 then 1 else 0)))")
  show ?case
    unfolding decryptV2_loop_step[OF lt sq] Suc.hyps(1)[OF d] using lt by simp
qed

lemma encryptV2_length:
  "length (cipherText (fst (encryptV2 P message pk esk))) = ceilDiv (length (bytes message)) 31 + 1"
proof -
  have "length (bytes message @ replicate (ceilDiv (length (bytes message)) 31 * 31 - length (bytes message)) (0::UInt8))
        = ceilDiv (length (bytes message)) 31 * 31"
    using ceilDiv31_ge[of "length (bytes message)"] by simp
  then have "length (chunk (bytes message @ replicate (ceilDiv (length (bytes message)) 31 * 31 - length (bytes message)) (0::UInt8)) 31)
        = ceilDiv (length (bytes message)) 31"
    by (simp add: length_chunk ceilDiv31_mult)
  then show ?thesis
    unfolding encryptV2_fst using encryptV2_loop_inv[of 0 _ "[]" P] by simp
qed

lemma slice0_take: "slice0 xs e = take (length (slice0 xs e)) xs"
  by (simp add: slice0_def Let_def)

lemma jsSlice0_take: "jsSlice0 xs e = take (length (jsSlice0 xs e)) xs"
  by (cases e) (simp_all add: jsSlice0_def slice0_def Let_def)

lemma decryptV2_nonempty:
  assumes "cipherText c \<noteq> []"
  shows "fst (decryptV2 P c sk) =
     (if fst (squeeze P (fst (decryptV2_loop P (butlast (cipherText c)) 0
                 (absorb P (newSponge P) (xcoord P (scale P (publicKey c) sk)), [])))) =
         last (cipherText c)
      then Inr \<lparr>bytes = jsSlice0
             (concat (snd (decryptV2_loop P (butlast (cipherText c)) 0
                 (absorb P (newSponge P) (xcoord P (scale P (publicKey c) sk)), []))))
             (jsSub (messageLength c)
                (jsMul (jsCeil (jsDiv (messageLength c) 31)) 31))\<rparr>
      else Inl AssertEqualsFailed)"
  using assms by (simp add: decryptV2_def pop_def assertEquals_def Let_def split: prod.splits)

text \<open>Rounding to a double: integers up to \<open>2^53\<close> are doubles, above it an odd integer
  is not, and a tie goes to the even mantissa; \<open>1/10\<close> is not a double.\<close>

lemma roundDouble_examples:
  "roundDouble 31 = Num 31"
  "roundDouble 9007199254740992 = Num 9007199254740992"
  "roundDouble 9007199254740993 = Num 9007199254740992"
  "roundDouble 9007199254741015 = Num 9007199254741016"
  "roundDouble (1 / 10) = Num (3602879701896397 / 36028797018963968)"
  "roundDouble (- 59 / 2) = Num (- 59 / 2)"
  by code_simp+

text \<open>The slice end \<^verbatim>\<open>messageLength - n\<close> that \<^verbatim>\<open>decryptV2\<close> computes: on the lengths 1
  and 31; on \<open>2^53 - 1\<close>, where \<^verbatim>\<open>Math.ceil(messageLength / 31) * 31\<close> is rounded; on a
  length that is not an integer; on \<^verbatim>\<open>NaN\<close> and \<^verbatim>\<open>Infinity\<close>.\<close>

lemma sliceEnd_examples:
  "jsSub (Num 9007199254740991) (jsMul (jsCeil (jsDiv (Num 9007199254740991) 31)) 31) = Num (- 25)"
  "jsSub (Num (3 / 2)) (jsMul (jsCeil (jsDiv (Num (3 / 2)) 31)) 31) = Num (- 59 / 2)"
  "jsSub (Num (- 5)) (jsMul (jsCeil (jsDiv (Num (- 5)) 31)) 31) = Num (- 5)"
  "jsSub NaN (jsMul (jsCeil (jsDiv NaN 31)) 31) = NaN"
  "jsSub PosInf (jsMul (jsCeil (jsDiv PosInf 31)) 31) = NaN"
  by code_simp+

lemma sliceEnd_1: "jsSub (Num 1) (jsMul (jsCeil (jsDiv (Num 1) 31)) 31) = Num (- 30)"
  by code_simp

lemma sliceEnd_31: "jsSub (Num 31) (jsMul (jsCeil (jsDiv (Num 31) 31)) 31) = Num 0"
  by code_simp

text \<open>What \<open>decryptV2\<close> makes of an honest ciphertext, for every instance of the
  primitives. When the message has 31 bytes the result is empty; a message of one byte
  comes back with a zero byte behind it, provided unpacking a packed chunk of 31 bytes
  into 32 bytes gives the chunk and a zero byte.\<close>

lemma decryptV2_encryptV2_31_bytes:
  fixes P :: "('f, 'g, 'k, 's) prims"
  assumes dh: "scale P (scale P (generator P) esk) sk = scale P (scale P (generator P) sk) esk"
    and len: "length (bytes message) = 31"
  shows "fst (decryptV2 P (fst (encryptV2 P message (scale P (generator P) sk) esk)) sk) =
         Inr \<lparr>bytes = []\<rparr>"
proof -
  define chunks where "chunks = chunk (bytes message @
      replicate (ceilDiv (length (bytes message)) 31 * 31 - length (bytes message)) 0) 31"
  define s0 where "s0 = absorb P (newSponge P) (xcoord P (scale P (scale P (generator P) sk) esk))"
  define R where "R = encryptV2_loop P chunks 0 (s0, [])"
  have sim: "fst (decryptV2_loop P (snd R) 0 (s0, [])) = fst R"
    unfolding R_def using decryptV2_encryptV2_loop[of 0 chunks "[]" P s0 "[]"] by simp
  show ?thesis
    unfolding encryptV2_fst chunks_def[symmetric]
    unfolding decryptV2_snoc dh
    unfolding s0_def[symmetric] R_def[symmetric] sim len
    by (simp add: sliceEnd_31 jsSlice0_def slice0_def)
qed

lemma decryptV2_encryptV2_one_byte:
  fixes P :: "('f, 'g, 'k, 's) prims"
  assumes dh: "scale P (scale P (generator P) esk) sk = scale P (scale P (generator P) sk) esk"
    and law: "\<forall>c k. length c = 31 \<longrightarrow>
                wordToBytes P (fsub P (fadd P (bytesToWord P c) k) k) 32 = c @ [0]"
  shows "fst (decryptV2 P (fst (encryptV2 P \<lparr>bytes = [b]\<rparr> (scale P (generator P) sk) esk)) sk) =
         Inr \<lparr>bytes = [b, 0]\<rparr>"
proof -
  let ?m = "\<lparr>bytes = [b]\<rparr>"
  define chunks where "chunks = chunk (bytes ?m @
      replicate (ceilDiv (length (bytes ?m)) 31 * 31 - length (bytes ?m)) 0) 31"
  have ch: "chunks = [b # replicate 30 0]"
    unfolding chunks_def by (simp add: ceilDiv_def chunk_step chunk_Nil)
  have law': "\<forall>c\<in>set chunks. \<forall>k.
      wordToBytes P (fsub P (fadd P (bytesToWord P c) k) k) 32 = (\<lambda>c. c @ [0]) c"
    using law by (simp add: ch)
  have same: "(fst (encryptV2 P ?m (scale P (generator P) sk) esk))\<lparr>messageLength := Num 1\<rparr> =
              fst (encryptV2 P ?m (scale P (generator P) sk) esk)"
    by (simp add: encryptV2_fst)
  have "fst (decryptV2 P
            ((fst (encryptV2 P ?m (scale P (generator P) sk) esk))\<lparr>messageLength := Num 1\<rparr>) sk) =
         Inr \<lparr>bytes = jsSlice0 (concat (map (\<lambda>c. c @ [0]) chunks))
                 (jsSub (Num 1) (jsMul (jsCeil (jsDiv (Num 1) 31)) 31))\<rparr>"
    by (rule decryptV2_encryptV2[OF dh chunks_def law'])
  then show ?thesis
    unfolding same ch sliceEnd_1 by (simp add: jsSlice0_def slice0_def)
qed

section \<open>Properties of the operations\<close>

text \<open>Claim C5. For a field-element message of length 1, 2 or 3 and a key pair with
  \<open>pk = generator * sk\<close>, the legacy \<open>decrypt\<close> of the legacy \<open>encrypt\<close> passes its tag check
  and returns the message. The two hypotheses on the primitives are the laws of the
  collaborators: scalar multiplication on the generator commutes, and subtracting the
  keystream element undoes adding it.\<close>

theorem legacy_roundtrip:
  assumes "length message \<in> {1, 2, 3}"
    and "pk = scale P (generator P) sk"
    and "scale P (scale P (generator P) esk) sk = scale P (scale P (generator P) sk) esk"
    and "\<forall>a\<in>set message. \<forall>k. fsub P (fadd P a k) k = a"
  shows "fst (decrypt P (encrypt P message pk esk) sk) = Inr message"
  using assms(2) decrypt_encrypt[OF assms(3) assms(4)] by simp

text \<open>The hypotheses of C5 hold for the instance, on a message of two field elements.\<close>

theorem legacy_roundtrip_witness:
  "length [11, 22 :: int] \<in> {1, 2, 3} \<and>
   fst (decrypt toy (encrypt toy [11, 22] (scale toy (generator toy) 6) 4) 6) = Inr [11, 22]"
proof -
  have len: "length [11, 22 :: int] \<in> {1, 2, 3}" by simp
  have law: "\<forall>a\<in>set [11, 22]. \<forall>k. fsub toy (fadd toy a k) k = a"
    by (simp add: toy_cancel pallas_def)
  show ?thesis
    using len legacy_roundtrip[OF len refl toy_dh law] by blast
qed

text \<open>Claim C8. The record \<open>encryptV2\<close> returns satisfies
  \<open>messageLength \<le> 31 * (length cipherText - 1)\<close>: its \<open>messageLength\<close> is the number of
  bytes of the message, and that number is at most \<open>31 * (length cipherText - 1)\<close>. The
  ciphertext is never empty, its last element being the tag.\<close>

theorem encryptV2_length_invariant:
  "cipherText (fst (encryptV2 P message pk esk)) \<noteq> [] \<and>
   messageLength (fst (encryptV2 P message pk esk)) = Num (of_nat (length (bytes message))) \<and>
   length (bytes message) \<le>
     31 * (length (cipherText (fst (encryptV2 P message pk esk))) - 1)"
proof -
  have "length (cipherText (fst (encryptV2 P message pk esk))) = ceilDiv (length (bytes message)) 31 + 1"
    by (rule encryptV2_length)
  moreover have "messageLength (fst (encryptV2 P message pk esk)) =
                 Num (of_nat (length (bytes message)))"
    by (simp add: encryptV2_fst)
  ultimately show ?thesis
    using ceilDiv31_ge[of "length (bytes message)"] by (auto simp: mult.commute)
qed

text \<open>Claim C2 as stated fails. A message of 31 bytes stays 31 bytes long, and its ciphertext
  has two elements, not three.\<close>

theorem encryptV2_multiple_counterexample:
  "length (bytes \<lparr>bytes = replicate 31 1\<rparr>) = 31 \<and>
   bytes (snd (encryptV2 toy \<lparr>bytes = replicate 31 1\<rparr> (scale toy (generator toy) 6) 4)) =
     replicate 31 1 \<and>
   length (cipherText (fst (encryptV2 toy \<lparr>bytes = replicate 31 1\<rparr> (scale toy (generator toy) 6) 4)))
     \<noteq> 31 div 31 + 2"
  by (simp add: encryptV2_length encryptV2_snd ceilDiv_def)

text \<open>Claim C2, amended. For a message whose byte length is a positive multiple of 31,
  \<open>encryptV2\<close> appends no padding (the padding length \<open>ceil(len/31)*31 - len\<close> is 0) and the
  ciphertext has \<open>len/31 + 1\<close> elements: the chunks and the tag.\<close>

theorem encryptV2_multiple_no_padding:
  assumes "0 < length (bytes message)" and "31 dvd length (bytes message)"
  shows "snd (encryptV2 P message pk esk) = message \<and>
         length (cipherText (fst (encryptV2 P message pk esk))) = length (bytes message) div 31 + 1"
  using assms by (simp add: encryptV2_length encryptV2_snd ceilDiv_def ceilDiv31_dvd)

text \<open>The amended C2 on a message of 62 bytes.\<close>

theorem encryptV2_multiple_no_padding_witness:
  "0 < length (bytes \<lparr>bytes = replicate 62 3\<rparr>) \<and> 31 dvd length (bytes \<lparr>bytes = replicate 62 3\<rparr>) \<and>
   snd (encryptV2 toy \<lparr>bytes = replicate 62 3\<rparr> (scale toy (generator toy) 6) 4) =
     \<lparr>bytes = replicate 62 3\<rparr> \<and>
   length (cipherText (fst (encryptV2 toy \<lparr>bytes = replicate 62 3\<rparr> (scale toy (generator toy) 6) 4)))
     = 3"
proof -
  have a: "0 < length (bytes \<lparr>bytes = replicate 62 3\<rparr>)" by simp
  have b: "31 dvd length (bytes \<lparr>bytes = replicate 62 3\<rparr>)" by simp
  show ?thesis
    using a b encryptV2_multiple_no_padding[OF a b, of toy "scale toy (generator toy) 6" 4]
    by simp
qed

text \<open>Claim C10. \<open>encryptV2\<close> overwrites the bytes of the \<open>Bytes\<close> object it is given with
  the zero-padded bytes: after the call the object holds the original bytes followed by
  zeros, its length the next multiple of 31. The object is unchanged exactly when the
  length was a multiple of 31 already.\<close>

theorem encryptV2_mutates_message:
  "snd (encryptV2 P message pk esk) =
     message\<lparr>bytes := bytes message @
        replicate (ceilDiv (length (bytes message)) 31 * 31 - length (bytes message)) 0\<rparr> \<and>
   length (bytes (snd (encryptV2 P message pk esk))) = ceilDiv (length (bytes message)) 31 * 31 \<and>
   31 dvd length (bytes (snd (encryptV2 P message pk esk))) \<and>
   length (bytes message) \<le> length (bytes (snd (encryptV2 P message pk esk))) \<and>
   length (bytes (snd (encryptV2 P message pk esk))) < length (bytes message) + 31 \<and>
   (bytes (snd (encryptV2 P message pk esk)) = bytes message) = (31 dvd length (bytes message))"
proof -
  let ?L = "length (bytes message)"
  have ge: "?L \<le> ceilDiv ?L 31 * 31" by (rule ceilDiv31_ge)
  have lt: "ceilDiv ?L 31 * 31 < ?L + 31" by (rule ceilDiv31_lt)
  have eq: "(ceilDiv ?L 31 * 31 = ?L) = (31 dvd ?L)"
    by (metis ceilDiv31_dvd dvd_triv_right)
  have len: "length (bytes (snd (encryptV2 P message pk esk))) = ceilDiv ?L 31 * 31"
    using ge by (simp add: encryptV2_snd)
  have same: "(bytes (snd (encryptV2 P message pk esk)) = bytes message) = (ceilDiv ?L 31 * 31 = ?L)"
    using ge by (auto simp: encryptV2_snd)
  show ?thesis
    unfolding same eq len using ge lt by (simp add: encryptV2_snd)
qed

text \<open>Claim C9. \<open>decrypt\<close> and \<open>decryptV2\<close> remove the last element of the caller's
  \<open>cipherText\<close> array: after the call the array is one element shorter, so a second call
  on the same object sees a different sequence and pops once more.\<close>

theorem decrypt_pops_tag:
  assumes "cipherText c \<noteq> []" and "cipherText c2 \<noteq> []"
  shows "snd (decrypt P c sk) = c\<lparr>cipherText := butlast (cipherText c)\<rparr> \<and>
         length (cipherText (snd (decrypt P c sk))) + 1 = length (cipherText c) \<and>
         cipherText (snd (decrypt P c sk)) \<noteq> cipherText c \<and>
         snd (decrypt P (snd (decrypt P c sk)) sk) =
           c\<lparr>cipherText := butlast (butlast (cipherText c))\<rparr> \<and>
         snd (decryptV2 P c2 sk) = c2\<lparr>cipherText := butlast (cipherText c2)\<rparr> \<and>
         length (cipherText (snd (decryptV2 P c2 sk))) + 1 = length (cipherText c2) \<and>
         cipherText (snd (decryptV2 P c2 sk)) \<noteq> cipherText c2 \<and>
         snd (decryptV2 P (snd (decryptV2 P c2 sk)) sk) =
           c2\<lparr>cipherText := butlast (butlast (cipherText c2))\<rparr>"
proof -
  have ne: "butlast xs \<noteq> xs" if "xs \<noteq> []" for xs :: "'a list"
    using that by (metis length_butlast diff_less length_greater_0_conv less_irrefl zero_less_one)
  show ?thesis
    using assms ne[OF assms(1)] ne[OF assms(2)] by (simp add: decrypt_snd decryptV2_snd)
qed

text \<open>C9 on ciphertexts of three and of two elements.\<close>

theorem decrypt_pops_tag_witness:
  "cipherText \<lparr>publicKey = 5 :: int, cipherText = [1, 2, 3 :: int]\<rparr> \<noteq> [] \<and>
   cipherText \<lparr>publicKey = 5 :: int, cipherText = [4, 5 :: int], messageLength = Num 1\<rparr> \<noteq> [] \<and>
   snd (decrypt toy \<lparr>publicKey = 5, cipherText = [1, 2, 3]\<rparr> 6) =
     \<lparr>publicKey = 5, cipherText = [1, 2]\<rparr> \<and>
   snd (decrypt toy (snd (decrypt toy \<lparr>publicKey = 5, cipherText = [1, 2, 3]\<rparr> 6)) 6) =
     \<lparr>publicKey = 5, cipherText = [1]\<rparr> \<and>
   snd (decryptV2 toy \<lparr>publicKey = 5, cipherText = [4, 5], messageLength = Num 1\<rparr> 6) =
     \<lparr>publicKey = 5, cipherText = [4], messageLength = Num 1\<rparr>"
proof -
  let ?c = "\<lparr>publicKey = 5 :: int, cipherText = [1, 2, 3 :: int]\<rparr>"
  let ?c2 = "\<lparr>publicKey = 5 :: int, cipherText = [4, 5 :: int], messageLength = Num 1\<rparr>"
  have a: "cipherText ?c \<noteq> []" by simp
  have b: "cipherText ?c2 \<noteq> []" by simp
  note t = decrypt_pops_tag[OF a b, of toy 6]
  from t have "snd (decrypt toy ?c 6) = ?c\<lparr>cipherText := butlast (cipherText ?c)\<rparr>"
    by blast
  then have t1: "snd (decrypt toy ?c 6) = \<lparr>publicKey = 5, cipherText = [1, 2]\<rparr>"
    by simp
  from t have "snd (decrypt toy (snd (decrypt toy ?c 6)) 6) =
      ?c\<lparr>cipherText := butlast (butlast (cipherText ?c))\<rparr>"
    by blast
  then have t2: "snd (decrypt toy (snd (decrypt toy ?c 6)) 6) =
      \<lparr>publicKey = 5, cipherText = [1]\<rparr>"
    by simp
  from t have "snd (decryptV2 toy ?c2 6) = ?c2\<lparr>cipherText := butlast (cipherText ?c2)\<rparr>"
    by blast
  then have t3: "snd (decryptV2 toy ?c2 6) =
      \<lparr>publicKey = 5, cipherText = [4], messageLength = Num 1\<rparr>"
    by simp
  from a b t1 t2 t3 show ?thesis by blast
qed

text \<open>Claim C6. On a ciphertext \<open>cs @ [t]\<close>, \<open>decrypt\<close> and \<open>decryptV2\<close> take the tag \<open>t\<close>
  off before the loop, run the loop over all of \<open>cs\<close> (it yields one chunk per element),
  squeeze the tag from the sponge the finished loop leaves, and compare: when the two tags
  differ the call throws and returns no plaintext.\<close>

theorem tag_checked_after_loop:
  "fst (decrypt P \<lparr>publicKey = g, cipherText = cs @ [t]\<rparr> sk) =
     (if fst (squeeze P (fst (decrypt_loop P cs 0
                 (absorb P (newSponge P) (xcoord P (scale P g sk)), [])))) = t
      then Inr (snd (decrypt_loop P cs 0 (absorb P (newSponge P) (xcoord P (scale P g sk)), [])))
      else Inl AssertEqualsFailed) \<and>
   length (snd (decrypt_loop P cs 0 (absorb P (newSponge P) (xcoord P (scale P g sk)), []))) =
     length cs \<and>
   fst (decryptV2 P \<lparr>publicKey = g, cipherText = cs @ [t], messageLength = L\<rparr> sk) =
     (if fst (squeeze P (fst (decryptV2_loop P cs 0
                 (absorb P (newSponge P) (xcoord P (scale P g sk)), [])))) = t
      then Inr \<lparr>bytes = jsSlice0
             (concat (snd (decryptV2_loop P cs 0
                 (absorb P (newSponge P) (xcoord P (scale P g sk)), []))))
             (jsSub L (jsMul (jsCeil (jsDiv L 31)) 31))\<rparr>
      else Inl AssertEqualsFailed) \<and>
   length (snd (decryptV2_loop P cs 0 (absorb P (newSponge P) (xcoord P (scale P g sk)), []))) =
     length cs"
  by (simp only: decrypt_snoc decryptV2_snoc decrypt_loop_length decryptV2_loop_length) simp

text \<open>Claim C4. Run with a sponge that records its operations, each of the four loops applies
  to the sponge exactly the schedule of the specification: in step \<open>i\<close> (after the frame
  field in V2, and the squeeze) the ciphertext element \<open>i - 1\<close> is absorbed when \<open>i\<close> is
  odd, then the element \<open>i\<close> when \<open>i\<close> is odd or the last index, and nothing else. The
  schedule has one step for each ciphertext element, and each loop produces one output
  element for each element of its input: an encrypting loop goes through every index of
  the message (of the chunks), a decrypting loop through every index of the ciphertext.
  The recording run computes the sponge and the output of the plain run. The decrypting
  loop on the output of the encrypting loop records the same operations as the
  encrypting loop.\<close>

theorem absorb_schedule:
  "encrypt_loop (logging P) message 0 ((s, lg), []) =
     ((fst (encrypt_loop P message 0 (s, [])),
       lg @ scheduleV1 (snd (encrypt_loop P message 0 (s, [])))),
      snd (encrypt_loop P message 0 (s, []))) \<and>
   decrypt_loop (logging P) ct 0 ((s, lg), []) =
     ((fst (decrypt_loop P ct 0 (s, [])), lg @ scheduleV1 ct),
      snd (decrypt_loop P ct 0 (s, []))) \<and>
   encryptV2_loop (logging P) chunks 0 ((s, lg), []) =
     ((fst (encryptV2_loop P chunks 0 (s, [])),
       lg @ scheduleV2 P (snd (encryptV2_loop P chunks 0 (s, [])))),
      snd (encryptV2_loop P chunks 0 (s, []))) \<and>
   decryptV2_loop (logging P) ct 0 ((s, lg), []) =
     ((fst (decryptV2_loop P ct 0 (s, [])), lg @ scheduleV2 P ct),
      snd (decryptV2_loop P ct 0 (s, []))) \<and>
   snd (fst (decrypt_loop (logging P) (snd (encrypt_loop P message 0 (s, []))) 0 ((s, lg), []))) =
     snd (fst (encrypt_loop (logging P) message 0 ((s, lg), []))) \<and>
   snd (fst (decryptV2_loop (logging P) (snd (encryptV2_loop P chunks 0 (s, []))) 0 ((s, lg), []))) =
     snd (fst (encryptV2_loop (logging P) chunks 0 ((s, lg), []))) \<and>
   length (snd (encrypt_loop P message 0 (s, []))) = length message \<and>
   length (snd (encryptV2_loop P chunks 0 (s, []))) = length chunks \<and>
   length (snd (decrypt_loop P ct 0 (s, []))) = length ct \<and>
   length (snd (decryptV2_loop P ct 0 (s, []))) = length ct"
proof -
  have e1: "encrypt_loop (logging P) message 0 ((s, lg), []) =
     ((fst (encrypt_loop P message 0 (s, [])),
       lg @ scheduleV1 (snd (encrypt_loop P message 0 (s, [])))),
      snd (encrypt_loop P message 0 (s, [])))"
    using encrypt_loop_logging[of P message 0 s lg "[]"] encrypt_loop_log[of P message s lg]
    by (simp add: prod_eq_iff)
  have e2: "encryptV2_loop (logging P) chunks 0 ((s, lg), []) =
     ((fst (encryptV2_loop P chunks 0 (s, [])),
       lg @ scheduleV2 P (snd (encryptV2_loop P chunks 0 (s, [])))),
      snd (encryptV2_loop P chunks 0 (s, [])))"
    using encryptV2_loop_logging[of P chunks 0 s lg "[]"] encryptV2_loop_log[of P chunks s lg]
    by (simp add: prod_eq_iff)
  have l1: "length (snd (encrypt_loop P message 0 (s, []))) = length message"
    using encrypt_loop_inv[of 0 message "[]" P s] by simp
  have l2: "length (snd (encryptV2_loop P chunks 0 (s, []))) = length chunks"
    using encryptV2_loop_inv[of 0 chunks "[]" P s] by simp
  show ?thesis
    using e1 e2 l1 l2
    by (simp add: decrypt_loop_logging decryptV2_loop_logging scheduleV1_def scheduleV2_def
        decrypt_loop_length decryptV2_loop_length)
qed

text \<open>Claim C1 fails on the code. The encryption of the one-byte message \<open>[7]\<close> decrypts
  to the two bytes \<open>[7, 0]\<close>: \<open>wordToBytes(messageChunk, 32)\<close> gives 32 bytes for a chunk
  of 31, and \<open>slice(0, messageLength - n)\<close> cuts \<open>n - messageLength = 30\<close> bytes off the
  end of those 32.\<close>

theorem decryptV2_roundtrip_broken:
  "fst (decryptV2 toy (fst (encryptV2 toy \<lparr>bytes = [7]\<rparr> (scale toy (generator toy) 6) 4)) 6) =
     Inr \<lparr>bytes = [7, 0]\<rparr>"
  by code_simp

text \<open>Claim C3 fails on the code. The encryption of a message of 31 bytes passes the tag
  check and decrypts to no bytes at all: \<open>messageLength - n\<close> is 0 and \<open>slice(0, 0)\<close> is
  empty.\<close>

theorem decryptV2_length_broken:
  "messageLength (fst (encryptV2 toy \<lparr>bytes = replicate 31 1\<rparr> (scale toy (generator toy) 6) 4)) = Num 31 \<and>
   fst (decryptV2 toy (fst (encryptV2 toy \<lparr>bytes = replicate 31 1\<rparr> (scale toy (generator toy) 6) 4)) 6) =
     Inr \<lparr>bytes = []\<rparr>"
  by code_simp

text \<open>Claim C7 as stated fails. A ciphertext of one chunk and a tag with
  \<open>messageLength = 40 > 31 * 1\<close> passes the tag check, and \<open>decryptV2\<close> returns ten bytes.\<close>

theorem decryptV2_length_counterexample:
  "messageLength ((fst (encryptV2 toy \<lparr>bytes = [7]\<rparr> (scale toy (generator toy) 6) 4))
           \<lparr>messageLength := Num 40\<rparr>) = Num 40 \<and>
   31 * (length (cipherText ((fst (encryptV2 toy \<lparr>bytes = [7]\<rparr> (scale toy (generator toy) 6) 4))
           \<lparr>messageLength := Num 40\<rparr>)) - 1) < (40 :: nat) \<and>
   fst (decryptV2 toy
         ((fst (encryptV2 toy \<lparr>bytes = [7]\<rparr> (scale toy (generator toy) 6) 4))
           \<lparr>messageLength := Num 40\<rparr>) 6) =
     Inr \<lparr>bytes = [7, 0, 0, 0, 0, 0, 0, 0, 0, 0]\<rparr>"
  by code_simp

text \<open>Claim C7, amended. \<open>decryptV2\<close> makes no length check. On a ciphertext that has a
  tag, whatever number its \<open>messageLength\<close> is (so also when it exceeds
  \<open>31 * (length cipherText - 1)\<close>), the call throws exactly when the tag check fails, and
  what it throws is the exception of that check; otherwise it returns a prefix of the
  flattened decrypted chunks, so nothing is read outside the array.\<close>

theorem decryptV2_no_length_check:
  assumes "cipherText c \<noteq> []"
  shows "if fst (squeeze P (fst (decryptV2_loop P (butlast (cipherText c)) 0
                 (absorb P (newSponge P) (xcoord P (scale P (publicKey c) sk)), [])))) =
            last (cipherText c)
         then (\<exists>k. fst (decryptV2 P c sk) =
                 Inr \<lparr>bytes = take k (concat (snd (decryptV2_loop P (butlast (cipherText c)) 0
                   (absorb P (newSponge P) (xcoord P (scale P (publicKey c) sk)), []))))\<rparr>)
         else fst (decryptV2 P c sk) = Inl AssertEqualsFailed"
proof -
  let ?st = "decryptV2_loop P (butlast (cipherText c)) 0
               (absorb P (newSponge P) (xcoord P (scale P (publicKey c) sk)), [])"
  let ?e = "jsSub (messageLength c) (jsMul (jsCeil (jsDiv (messageLength c) 31)) 31)"
  have pre: "jsSlice0 (concat (snd ?st)) ?e =
             take (length (jsSlice0 (concat (snd ?st)) ?e)) (concat (snd ?st))"
    by (rule jsSlice0_take)
  show ?thesis
  proof (cases "fst (squeeze P (fst ?st)) = last (cipherText c)")
    case True
    then have "fst (decryptV2 P c sk) = Inr \<lparr>bytes = jsSlice0 (concat (snd ?st)) ?e\<rparr>"
      using decryptV2_nonempty[OF assms, of P sk] by simp
    then have "fst (decryptV2 P c sk) =
        Inr \<lparr>bytes = take (length (jsSlice0 (concat (snd ?st)) ?e)) (concat (snd ?st))\<rparr>"
      using pre by simp
    then have "\<exists>k. fst (decryptV2 P c sk) = Inr \<lparr>bytes = take k (concat (snd ?st))\<rparr>"
      by blast
    with True show ?thesis by simp
  next
    case False
    then have "fst (decryptV2 P c sk) = Inl AssertEqualsFailed"
      using decryptV2_nonempty[OF assms, of P sk] by simp
    with False show ?thesis by simp
  qed
qed

text \<open>The amended C7 on the encryption of \<open>[9, 8]\<close> with \<open>messageLength\<close> set to 33: the
  tag check passes and the result is a prefix of the 32 flattened bytes, three bytes
  long.\<close>

theorem decryptV2_no_length_check_witness:
  "cipherText ((fst (encryptV2 toy \<lparr>bytes = [9, 8]\<rparr> (scale toy (generator toy) 6) 4))
           \<lparr>messageLength := Num 33\<rparr>) \<noteq> [] \<and>
   (\<exists>k. fst (decryptV2 toy
         ((fst (encryptV2 toy \<lparr>bytes = [9, 8]\<rparr> (scale toy (generator toy) 6) 4))
           \<lparr>messageLength := Num 33\<rparr>) 6) =
      Inr \<lparr>bytes = take k (9 # 8 # replicate 30 0)\<rparr>) \<and>
   fst (decryptV2 toy
         ((fst (encryptV2 toy \<lparr>bytes = [9, 8]\<rparr> (scale toy (generator toy) 6) 4))
           \<lparr>messageLength := Num 33\<rparr>) 6) =
     Inr \<lparr>bytes = [9, 8, 0]\<rparr>"
proof -
  let ?c = "(fst (encryptV2 toy \<lparr>bytes = [9, 8]\<rparr> (scale toy (generator toy) 6) 4))
           \<lparr>messageLength := Num 33\<rparr>"
  let ?st = "decryptV2_loop toy (butlast (cipherText ?c)) 0
               (absorb toy (newSponge toy) (xcoord toy (scale toy (publicKey ?c) 6)), [])"
  have b: "cipherText ?c \<noteq> []" by code_simp
  have tag: "fst (squeeze toy (fst ?st)) = last (cipherText ?c)" by code_simp
  have flat: "concat (snd ?st) = 9 # 8 # replicate 30 0" by code_simp
  have val: "fst (decryptV2 toy ?c 6) = Inr \<lparr>bytes = [9, 8, 0]\<rparr>" by code_simp
  from decryptV2_no_length_check[OF b, of toy 6] tag
  have "\<exists>k. fst (decryptV2 toy ?c 6) = Inr \<lparr>bytes = take k (concat (snd ?st))\<rparr>"
    by simp
  then have "\<exists>k. fst (decryptV2 toy ?c 6) = Inr \<lparr>bytes = take k (9 # 8 # replicate 30 0)\<rparr>"
    unfolding flat .
  with b val show ?thesis by blast
qed

end
